theory Spec2Isabelle
  imports Main
begin

section \<open>Python values and their rendering\<close>

text \<open>
  The helper module works on what \<^verbatim>\<open>yaml.safe_load\<close> and \<^verbatim>\<open>json.loads\<close> return:
  \<^verbatim>\<open>None\<close>, booleans, integers, strings, lists and dictionaries. Floats and dates are
  left out. A string is the list of its code points, taken below 256. A dictionary is
  an association list in insertion order; Python keeps its keys distinct, which the
  theorems assume where it matters.
\<close>

datatype pyval =
    PNone
  | PBool bool
  | PInt int
  | PStr string
  | PList "pyval list"
  | PDict "(string \<times> pyval) list"

type_synonym item = "(string \<times> pyval) list"

datatype error =
    KeyError string
  | NameError string
  | TypeError
  | AttributeError
  | IndexError
  | JSONDecodeError
  | ValueError
  | OSError
  | UnicodeDecodeError

definition digit_char :: "nat \<Rightarrow> char" where
  "digit_char d = ''0123456789abcdef'' ! d"

fun dec_nat :: "nat \<Rightarrow> string" where
  "dec_nat n = (if n < 10 then [digit_char n] else dec_nat (n div 10) @ [digit_char (n mod 10)])"

declare dec_nat.simps [simp del]

definition str_int :: "int \<Rightarrow> string" where
  "str_int i = (if i < 0 then CHR ''-'' # dec_nat (nat (- i)) else dec_nat (nat i))"

definition non_printable :: "char \<Rightarrow> bool" where
  "non_printable c =
     (let n = (of_char c :: nat) in n < 32 \<or> (127 \<le> n \<and> n \<le> 160) \<or> n = 173)"

definition esc_char :: "char \<Rightarrow> char \<Rightarrow> string" where
  "esc_char q c =
     (if c = CHR 0x5C then [CHR 0x5C, CHR 0x5C]
      else if c = q then [CHR 0x5C, q]
      else if c = CHR 0x09 then [CHR 0x5C, CHR ''t'']
      else if c = CHR 0x0A then [CHR 0x5C, CHR ''n'']
      else if c = CHR 0x0D then [CHR 0x5C, CHR ''r'']
      else if non_printable c then
        [CHR 0x5C, CHR ''x'', digit_char (of_char c div 16), digit_char (of_char c mod 16)]
      else [c])"

definition repr_str :: "string \<Rightarrow> string" where
  "repr_str s =
     (let q = (if CHR 0x27 \<in> set s \<and> CHR 0x22 \<notin> set s then CHR 0x22 else CHR 0x27)
      in q # concat (map (esc_char q) s) @ [q])"

fun join :: "string \<Rightarrow> string list \<Rightarrow> string" where
  "join sep [] = []"
| "join sep [x] = x"
| "join sep (x # y # ys) = x @ sep @ join sep (y # ys)"

fun py_repr :: "pyval \<Rightarrow> string" where
  "py_repr PNone = ''None''"
| "py_repr (PBool b) = (if b then ''True'' else ''False'')"
| "py_repr (PInt i) = str_int i"
| "py_repr (PStr s) = repr_str s"
| "py_repr (PList xs) = ''['' @ join '', '' (map py_repr xs) @ '']''"
| "py_repr (PDict kvs) =
     ''{'' @ join '', '' (map (\<lambda>kv. repr_str (fst kv) @ '': '' @ py_repr (snd kv)) kvs) @ ''}''"

text \<open>\<^verbatim>\<open>str(value)\<close>: a string is itself, everything else is its \<^verbatim>\<open>repr\<close>.\<close>

definition py_str :: "pyval \<Rightarrow> string" where
  "py_str v = (case v of PStr s \<Rightarrow> s | _ \<Rightarrow> py_repr v)"

text \<open>\<^verbatim>\<open>for x in value\<close>: lists give their elements, strings their characters,
  dictionaries their keys; \<^verbatim>\<open>None\<close>, booleans and integers are not iterable.\<close>

fun py_iter :: "pyval \<Rightarrow> error + pyval list" where
  "py_iter (PList xs) = Inr xs"
| "py_iter (PStr s) = Inr (map (\<lambda>c. PStr [c]) s)"
| "py_iter (PDict kvs) = Inr (map (\<lambda>kv. PStr (fst kv)) kvs)"
| "py_iter PNone = Inl TypeError"
| "py_iter (PBool b) = Inl TypeError"
| "py_iter (PInt i) = Inl TypeError"

text \<open>\<^verbatim>\<open>item[key]\<close> raises \<^verbatim>\<open>KeyError\<close> on a missing key;
  \<^verbatim>\<open>item.pop(key, default)\<close> removes the key and returns its value or the default.\<close>

definition getitem :: "item \<Rightarrow> string \<Rightarrow> error + pyval" where
  "getitem d k = (case map_of d k of None \<Rightarrow> Inl (KeyError k) | Some v \<Rightarrow> Inr v)"

definition dict_pop :: "string \<Rightarrow> pyval \<Rightarrow> item \<Rightarrow> pyval \<times> item" where
  "dict_pop k dflt d =
     (case map_of d k of
        None \<Rightarrow> (dflt, d)
      | Some v \<Rightarrow> (v, filter (\<lambda>kv. fst kv \<noteq> k) d))"

definition bind_err :: "error + 'a \<Rightarrow> ('a \<Rightarrow> error + 'b) \<Rightarrow> error + 'b" where
  "bind_err r f = (case r of Inl e \<Rightarrow> Inl e | Inr x \<Rightarrow> f x)"

text \<open>\<^verbatim>\<open>arg.startswith("--")\<close> and \<^verbatim>\<open>sub in s\<close> on strings.\<close>

definition startswith :: "string \<Rightarrow> string \<Rightarrow> bool" where
  "startswith s p = (take (length p) s = p)"

fun contains :: "string \<Rightarrow> string \<Rightarrow> bool" where
  "contains sub [] = (sub = [])"
| "contains sub (c # cs) = (startswith (c # cs) sub \<or> contains sub cs)"

section \<open>The argument mappers of helper.py\<close>

text \<open>Each mapper is the source's loop over \<^verbatim>\<open>item.items()\<close>, the lists it extends
  carried as accumulators.\<close>

fun generic_loop :: "item \<Rightarrow> string list \<Rightarrow> string list" where
  "generic_loop [] acc = acc"
| "generic_loop ((key, v) # rest) acc = generic_loop rest (acc @ [''--'' @ key, py_str v])"

definition parse_generic_block :: "item \<Rightarrow> string list" where
  "parse_generic_block item = generic_loop item []"

fun credentials_loop :: "item \<Rightarrow> string list \<Rightarrow> string list" where
  "credentials_loop [] acc = acc"
| "credentials_loop ((key, v) # rest) acc =
     (if key = ''type'' then credentials_loop rest (acc @ [py_str v])
      else credentials_loop rest (acc @ [''--'' @ key, py_str v]))"

definition parse_credentials_block :: "item \<Rightarrow> string list" where
  "parse_credentials_block item = credentials_loop item []"

fun compute_envs_loop :: "item \<Rightarrow> string list \<Rightarrow> string list" where
  "compute_envs_loop [] acc = acc"
| "compute_envs_loop ((key, v) # rest) acc =
     (if key = ''file-path'' then compute_envs_loop rest (acc @ [py_str v])
      else compute_envs_loop rest (acc @ [''--'' @ key, py_str v]))"

definition parse_compute_envs_block :: "item \<Rightarrow> string list" where
  "parse_compute_envs_block item = compute_envs_loop item []"

definition cmd_keys :: "string list" where
  "cmd_keys = [''name'', ''organization'', ''description'']"

definition members_keys :: "string list" where
  "members_keys = [''name'', ''organization'', ''members'']"

text \<open>The inner loop of the teams mapper reads \<^verbatim>\<open>item["name"]\<close> and
  \<^verbatim>\<open>item["organization"]\<close> once per member, so a missing key raises only when
  there is a member.\<close>

fun members_loop :: "item \<Rightarrow> pyval list \<Rightarrow> string list list \<Rightarrow> error + string list list" where
  "members_loop item [] macc = Inr macc"
| "members_loop item (member # rest) macc =
     bind_err (getitem item ''name'') (\<lambda>nm.
     bind_err (getitem item ''organization'') (\<lambda>org.
       members_loop item rest
         (macc @ [[''--team'', py_str nm, ''--organization'', py_str org,
                   ''add'', ''--member'', py_str member]])))"

fun teams_loop ::
  "item \<Rightarrow> item \<Rightarrow> string list \<Rightarrow> string list list \<Rightarrow> error + (string list \<times> string list list)"
where
  "teams_loop item [] acc macc = Inr (acc, macc)"
| "teams_loop item ((key, v) # rest) acc macc =
     (if key \<in> set cmd_keys then
        teams_loop item rest (acc @ [''--'' @ key, py_str v]) macc
      else if key \<in> set members_keys \<and> key = ''members'' then
        bind_err (py_iter v) (\<lambda>ms.
        bind_err (members_loop item ms macc) (\<lambda>macc'.
          teams_loop item rest acc macc'))
      else teams_loop item rest acc macc)"

definition parse_teams_block :: "item \<Rightarrow> error + (string list \<times> string list list)" where
  "parse_teams_block item = teams_loop item item [] []"

text \<open>\<^verbatim>\<open>utils.create_temp_yaml\<close> is not among the sources. The mappers that call it take
  it as a parameter \<open>cty\<close>: given the value to serialise and the state of the temporary
  directory, it returns the file's name and the new state.\<close>

fun actions_loop ::
  "(pyval \<Rightarrow> 's \<Rightarrow> string \<times> 's) \<Rightarrow> item \<Rightarrow> string list \<Rightarrow> 's \<Rightarrow> string list \<times> 's"
where
  "actions_loop cty [] acc s = (acc, s)"
| "actions_loop cty ((key, v) # rest) acc s =
     (if key = ''type'' then actions_loop cty rest (acc @ [py_str v]) s
      else if key = ''params'' then
        (case cty v s of (temp_file_name, s') \<Rightarrow>
           actions_loop cty rest (acc @ [''--params-file'', temp_file_name]) s')
      else actions_loop cty rest (acc @ [''--'' @ key, py_str v]) s)"

definition parse_actions_block ::
  "(pyval \<Rightarrow> 's \<Rightarrow> string \<times> 's) \<Rightarrow> item \<Rightarrow> 's \<Rightarrow> string list \<times> 's"
where
  "parse_actions_block cty item s = actions_loop cty item [] s"

text \<open>The list literal of the datasets mapper is evaluated left to right, so the first
  missing key is the one the \<^verbatim>\<open>KeyError\<close> names.\<close>

definition dataset_fields :: "item \<Rightarrow> error + string list" where
  "dataset_fields item =
     bind_err (getitem item ''file-path'') (\<lambda>fp.
     bind_err (getitem item ''name'') (\<lambda>nm.
     bind_err (getitem item ''workspace'') (\<lambda>ws.
     bind_err (getitem item ''description'') (\<lambda>ds.
       Inr [py_str fp, ''--name'', py_str nm, ''--workspace'', py_str ws,
            ''--description'', py_str ds]))))"

fun datasets_loop :: "item \<Rightarrow> item \<Rightarrow> string list \<Rightarrow> error + string list" where
  "datasets_loop item [] acc = Inr acc"
| "datasets_loop item ((key, v) # rest) acc =
     bind_err
       (if key = ''file-path'' then bind_err (dataset_fields item) (\<lambda>fs. Inr (acc @ fs))
        else Inr acc)
       (\<lambda>acc'. datasets_loop item rest
          (if key = ''header'' \<and> v = PBool True then acc' @ [''--header''] else acc'))"

definition parse_datasets_block :: "item \<Rightarrow> error + string list" where
  "parse_datasets_block item = datasets_loop item item []"

fun pipelines_loop ::
  "(pyval \<Rightarrow> 's \<Rightarrow> string \<times> 's) \<Rightarrow> item \<Rightarrow> string list \<Rightarrow> string list \<Rightarrow> string list \<Rightarrow> 's
     \<Rightarrow> string list \<times> 's"
where
  "pipelines_loop cty [] acc repo_args params_args s = (repo_args @ params_args @ acc, s)"
| "pipelines_loop cty ((key, v) # rest) acc repo_args params_args s =
     (if key = ''url'' then pipelines_loop cty rest acc (repo_args @ [py_str v]) params_args s
      else if key = ''params'' then
        (case cty v s of (temp_file_name, s') \<Rightarrow>
           pipelines_loop cty rest acc repo_args
             (params_args @ [''--params-file'', temp_file_name]) s')
      else if key = ''file-path'' then
        pipelines_loop cty rest acc (repo_args @ [py_str v]) params_args s
      else pipelines_loop cty rest (acc @ [''--'' @ key, py_str v]) repo_args params_args s)"

definition parse_pipelines_block ::
  "(pyval \<Rightarrow> 's \<Rightarrow> string \<times> 's) \<Rightarrow> item \<Rightarrow> 's \<Rightarrow> string list \<times> 's"
where
  "parse_pipelines_block cty item s = pipelines_loop cty item [] [] [] s"

fun launch_loop ::
  "(pyval \<Rightarrow> 's \<Rightarrow> string \<times> 's) \<Rightarrow> item \<Rightarrow> string list \<Rightarrow> string list \<Rightarrow> 's
     \<Rightarrow> string list \<times> 's"
where
  "launch_loop cty [] repo_args acc s = (repo_args @ acc, s)"
| "launch_loop cty ((key, v) # rest) repo_args acc s =
     (if key = ''pipeline'' \<or> key = ''url'' then
        launch_loop cty rest (repo_args @ [py_str v]) acc s
      else if key = ''params'' then
        (case cty v s of (temp_file_name, s') \<Rightarrow>
           launch_loop cty rest repo_args (acc @ [''--params-file'', temp_file_name]) s')
      else launch_loop cty rest repo_args (acc @ [''--'' @ key, py_str v]) s)"

definition parse_launch_block ::
  "(pyval \<Rightarrow> 's \<Rightarrow> string \<times> 's) \<Rightarrow> item \<Rightarrow> 's \<Rightarrow> string list \<times> 's"
where
  "parse_launch_block cty item s = launch_loop cty item [] [] s"

section \<open>Block parsing\<close>

text \<open>The teams mapper returns a pair of lists, every other mapper a flat list.\<close>

datatype cmd_args_t = Args "string list" | TeamArgs "string list" "string list list"

record command_spec =
  cmd_args :: cmd_args_t
  overwrite :: pyval

definition parse_fn ::
  "(pyval \<Rightarrow> 's \<Rightarrow> string \<times> 's) \<Rightarrow> string \<Rightarrow> item \<Rightarrow> 's \<Rightarrow> (error + cmd_args_t) \<times> 's"
where
  "parse_fn cty block_name item s =
     (if block_name = ''credentials'' then (Inr (Args (parse_credentials_block item)), s)
      else if block_name = ''compute-envs'' then (Inr (Args (parse_compute_envs_block item)), s)
      else if block_name = ''teams'' then
        (case parse_teams_block item of
           Inl e \<Rightarrow> (Inl e, s)
         | Inr (a, m) \<Rightarrow> (Inr (TeamArgs a m), s))
      else if block_name = ''actions'' then
        (case parse_actions_block cty item s of (a, s') \<Rightarrow> (Inr (Args a), s'))
      else if block_name = ''datasets'' then
        (case parse_datasets_block item of
           Inl e \<Rightarrow> (Inl e, s)
         | Inr a \<Rightarrow> (Inr (Args a), s))
      else if block_name = ''pipelines'' then
        (case parse_pipelines_block cty item s of (a, s') \<Rightarrow> (Inr (Args a), s'))
      else if block_name = ''launch'' then
        (case parse_launch_block cty item s of (a, s') \<Rightarrow> (Inr (Args a), s'))
      else (Inr (Args (parse_generic_block item)), s))"

definition parse_block ::
  "(pyval \<Rightarrow> 's \<Rightarrow> string \<times> 's) \<Rightarrow> string \<Rightarrow> item \<Rightarrow> 's \<Rightarrow> (error + command_spec) \<times> 's"
where
  "parse_block cty block_name item s =
     (case dict_pop ''overwrite'' (PBool False) item of (ow, item') \<Rightarrow>
        (case parse_fn cty block_name item' s of
           (Inl e, s') \<Rightarrow> (Inl e, s')
         | (Inr a, s') \<Rightarrow> (Inr \<lparr>cmd_args = a, overwrite = ow\<rparr>, s')))"

text \<open>The names bound at module level in helper.py: its four imports and its functions.
  A name that is neither here nor a Python builtin raises \<^verbatim>\<open>NameError\<close> when the
  line that uses it runs.\<close>

definition helper_globals :: "string list" where
  "helper_globals =
     [''json'', ''yaml'', ''tower'', ''utils'',
      ''parse_yaml_block'', ''parse_all_yaml'', ''parse_block'', ''parse_generic_block'',
      ''parse_credentials_block'', ''parse_compute_envs_block'', ''parse_teams_block'',
      ''parse_actions_block'', ''parse_datasets_block'', ''parse_pipelines_block'',
      ''parse_launch_block'', ''handle_add_block'', ''handle_info'', ''handle_teams'',
      ''handle_participants'', ''handle_compute_envs'', ''handle_pipelines'',
      ''handle_launch'', ''get_delete_identifier'', ''handle_overwrite'',
      ''get_values_from_cmd_args'', ''find_workspace_id'']"

fun block_items_loop ::
  "(pyval \<Rightarrow> 's \<Rightarrow> string \<times> 's) \<Rightarrow> string \<Rightarrow> item list \<Rightarrow> command_spec list \<Rightarrow> 's
     \<Rightarrow> (error + command_spec list) \<times> 's"
where
  "block_items_loop cty block_name [] cmd_args_list s = (Inr cmd_args_list, s)"
| "block_items_loop cty block_name (item # rest) cmd_args_list s =
     (case parse_block cty block_name item s of
        (Inl e, s') \<Rightarrow> (Inl e, s')
      | (Inr spec, s') \<Rightarrow> block_items_loop cty block_name rest (cmd_args_list @ [spec]) s')"

text \<open>\<open>data\<close> is the loaded document: block names to their lists of items;
  \<^verbatim>\<open>data.get(block_name)\<close> is \<^verbatim>\<open>None\<close> for a section that is absent. The branch for
  an absent section first calls \<^verbatim>\<open>logging.warn\<close>.\<close>

definition parse_yaml_block ::
  "(pyval \<Rightarrow> 's \<Rightarrow> string \<times> 's) \<Rightarrow> (string \<times> item list) list \<Rightarrow> string \<Rightarrow> 's
     \<Rightarrow> (error + string \<times> command_spec list) \<times> 's"
where
  "parse_yaml_block cty data block_name s =
     (case (case map_of data block_name of
              None \<Rightarrow>
                if ''logging'' \<in> set helper_globals then Inr [[]]
                else Inl (NameError ''logging'')
            | Some block \<Rightarrow> Inr block)
      of
        Inl e \<Rightarrow> (Inl e, s)
      | Inr block \<Rightarrow>
          (case block_items_loop cty block_name block [] s of
             (Inl e, s') \<Rightarrow> (Inl e, s')
           | (Inr cmd_args_list, s') \<Rightarrow> (Inr (block_name, cmd_args_list), s')))"

section \<open>The Tower object and the handlers\<close>

text \<open>A computation on the Tower object that may raise.\<close>

definition bind_tw ::
  "('t \<Rightarrow> (error + 'a) \<times> 't) \<Rightarrow> ('a \<Rightarrow> 't \<Rightarrow> (error + 'b) \<times> 't) \<Rightarrow> 't \<Rightarrow> (error + 'b) \<times> 't"
where
  "bind_tw m f tw = (case m tw of (Inl e, tw') \<Rightarrow> (Inl e, tw') | (Inr x, tw') \<Rightarrow> f x tw')"

definition lift_tw :: "error + 'a \<Rightarrow> 't \<Rightarrow> (error + 'a) \<times> 't" where
  "lift_tw r tw = (r, tw)"

text \<open>\<^verbatim>\<open>getattr(tw, name)\<close> gives a command whose text is the name with underscores
  replaced by hyphens; calling it hands \<^verbatim>\<open>cmd.split()\<close> followed by the arguments to
  \<^verbatim>\<open>_tw_run\<close>. A call is written as the command text and its arguments.

  \<^verbatim>\<open>_tw_run\<close> quotes every token with \<^verbatim>\<open>arg.startswith("$")\<close>, which raises
  \<^verbatim>\<open>AttributeError\<close> on a token that is not a string, joins the tokens into one
  command line and gives it to \<^verbatim>\<open>subprocess.Popen(full_cmd, shell=True)\<close>. \<^verbatim>\<open>Popen\<close>
  raises \<^verbatim>\<open>ValueError\<close> when the command line holds a NUL character, and then no
  process is started. Otherwise the process is the parameter \<open>run\<close>: from the call
  and the state of the platform to the new state and either the decoded output or
  the exception raised on the way (\<^verbatim>\<open>OSError\<close> when the shell cannot be started,
  \<^verbatim>\<open>UnicodeDecodeError\<close> when the output is not UTF-8). Nothing in \<^verbatim>\<open>tower.py\<close> or
  \<^verbatim>\<open>helper.py\<close> catches an exception, so a handler ends at the first call that
  raises. \<open>issued\<close> lists the calls handed to the process, \<open>world\<close> is the state of the
  platform.\<close>

type_synonym tw_call = "string \<times> string list"

record 'w tower =
  issued :: "tw_call list"
  world :: 'w

definition getattr_cmd :: "string \<Rightarrow> string" where
  "getattr_cmd attr = map (\<lambda>c. if c = CHR ''_'' then CHR ''-'' else c) attr"

definition has_nul :: "tw_call \<Rightarrow> bool" where
  "has_nul c = list_ex (\<lambda>token. CHR 0x00 \<in> set token) (fst c # snd c)"

definition tw_run ::
  "(tw_call \<Rightarrow> 'w \<Rightarrow> (error + string) \<times> 'w) \<Rightarrow> tw_call \<Rightarrow> 'w tower
     \<Rightarrow> (error + string) \<times> 'w tower"
where
  "tw_run run c tw =
     (if has_nul c then (Inl ValueError, tw)
      else
        (case run c (world tw) of
           (r, w') \<Rightarrow> (r, \<lparr>issued = issued tw @ [c], world = w'\<rparr>)))"

definition tw_invoke ::
  "(tw_call \<Rightarrow> 'w \<Rightarrow> (error + string) \<times> 'w) \<Rightarrow> string \<Rightarrow> string list \<Rightarrow> 'w tower
     \<Rightarrow> (error + string) \<times> 'w tower"
where
  "tw_invoke run attr args tw = tw_run run (getattr_cmd attr, args) tw"



fun role_loop :: "string list \<Rightarrow> string list \<Rightarrow> bool \<Rightarrow> string list" where
  "role_loop [] new_args skip_next = new_args"
| "role_loop (arg # rest) new_args skip_next =
     (if skip_next \<or> arg = ''--role'' then role_loop rest new_args (\<not> skip_next)
      else role_loop rest (new_args @ [arg]) skip_next)"

definition handle_participants ::
  "(tw_call \<Rightarrow> 'w \<Rightarrow> (error + string) \<times> 'w) \<Rightarrow> string list \<Rightarrow> 'w tower
     \<Rightarrow> (error + unit) \<times> 'w tower"
where
  "handle_participants run args =
     (let new_args = role_loop args [] False in
      bind_tw (tw_invoke run ''participants'' (''add'' # new_args)) (\<lambda>added.
      bind_tw (tw_invoke run ''participants'' (''update'' # args)) (\<lambda>updated.
        lift_tw (Inr ()))))"

text \<open>\<^verbatim>\<open>utils.is_url\<close> is not among the sources; the dispatcher takes it as the
  parameter \<open>is_url\<close>. The loop leaves at the first URL; the \<^verbatim>\<open>elif\<close> branch has no
  \<^verbatim>\<open>break\<close> and goes on to the next argument.\<close>

fun pipelines_dispatch ::
  "(tw_call \<Rightarrow> 'w \<Rightarrow> (error + string) \<times> 'w) \<Rightarrow> (string \<Rightarrow> bool) \<Rightarrow> string list
     \<Rightarrow> string list \<Rightarrow> 'w tower \<Rightarrow> (error + unit) \<times> 'w tower"
where
  "pipelines_dispatch run is_url args [] tw = (Inr (), tw)"
| "pipelines_dispatch run is_url args (arg # rest) tw =
     (if is_url arg then
        (case tw_invoke run ''pipelines'' (''add'' # args) tw of
           (Inl e, tw') \<Rightarrow> (Inl e, tw')
         | (Inr out, tw') \<Rightarrow> (Inr (), tw'))
      else if contains ''.json'' arg then
        (case tw_invoke run ''pipelines'' (''import'' # args) tw of
           (Inl e, tw') \<Rightarrow> (Inl e, tw')
         | (Inr out, tw') \<Rightarrow> pipelines_dispatch run is_url args rest tw')
      else pipelines_dispatch run is_url args rest tw)"

definition handle_pipelines ::
  "(tw_call \<Rightarrow> 'w \<Rightarrow> (error + string) \<times> 'w) \<Rightarrow> (string \<Rightarrow> bool) \<Rightarrow> string list \<Rightarrow> 'w tower
     \<Rightarrow> (error + unit) \<times> 'w tower"
where
  "handle_pipelines run is_url args tw = pipelines_dispatch run is_url args args tw"

section \<open>Reverse mapping and the overwrite handler\<close>

text \<open>\<^verbatim>\<open>values\<close> is a dictionary from the requested keys to \<^verbatim>\<open>None\<close> or a string;
  \<^verbatim>\<open>key\<close> is \<^verbatim>\<open>None\<close> or a string, and \<^verbatim>\<open>if key\<close> is false for both \<^verbatim>\<open>None\<close> and
  the empty string.\<close>

fun values_loop ::
  "string list \<Rightarrow> string list \<Rightarrow> (string \<rightharpoonup> string option) \<Rightarrow> string option
     \<Rightarrow> (string \<rightharpoonup> string option)"
where
  "values_loop ks [] vals key = vals"
| "values_loop ks (arg # rest) vals key =
     (if startswith arg ''--'' then values_loop ks rest vals (Some (drop 2 arg))
      else
        values_loop ks rest
          (case key of
             None \<Rightarrow> vals
           | Some k \<Rightarrow> if k \<noteq> [] \<and> k \<in> set ks then vals(k \<mapsto> Some arg) else vals)
          None)"

definition get_values_from_cmd_args ::
  "string list \<Rightarrow> string list \<Rightarrow> (string \<rightharpoonup> string option)"
where
  "get_values_from_cmd_args args ks =
     values_loop ks args (map_of (map (\<lambda>k. (k, None)) ks)) None"








definition generic_deletion :: "string list" where
  "generic_deletion =
     [''credentials'', ''secrets'', ''compute-envs'', ''datasets'', ''actions'', ''pipelines'']"

datatype delete_rule = ByName | ByTeamId | ByNameTypeWorkspace | ByWorkspaceId | ByNameWorkspace

record operation =
  op_keys :: "string list"
  op_method_args :: delete_rule
  op_name_key :: string

definition bespoke_operations :: "(string \<times> operation) list" where
  "bespoke_operations =
     [(''organizations'',
        \<lparr>op_keys = [''name''], op_method_args = ByName, op_name_key = ''orgName''\<rparr>),
      (''teams'',
        \<lparr>op_keys = [''name'', ''organization''], op_method_args = ByTeamId,
         op_name_key = ''name''\<rparr>),
      (''participants'',
        \<lparr>op_keys = [''name'', ''type'', ''workspace''], op_method_args = ByNameTypeWorkspace,
         op_name_key = ''email''\<rparr>),
      (''workspaces'',
        \<lparr>op_keys = [''name'', ''organization''], op_method_args = ByWorkspaceId,
         op_name_key = ''workspaceId''\<rparr>)]"

text \<open>\<^verbatim>\<open>block_operations[block] = ...\<close> for a block of \<open>generic_deletion\<close> comes before
  the lookup, so it wins over an entry of the same name.\<close>

definition block_operations :: "string \<Rightarrow> operation option" where
  "block_operations block =
     map_of
       ((if block \<in> set generic_deletion then
           [(block, \<lparr>op_keys = [''name'', ''workspace''], op_method_args = ByNameWorkspace,
                     op_name_key = ''name''\<rparr>)]
         else []) @ bespoke_operations)
       block"




text \<open>What the reverse mapping iterates over: \<^verbatim>\<open>args[0]\<close> for teams, \<^verbatim>\<open>args\<close>
  otherwise. A flat list indexed at 0 is its first string, iterated by character; a
  pair iterated directly yields a list, on which \<^verbatim>\<open>startswith\<close> raises.\<close>

fun values_source :: "string \<Rightarrow> cmd_args_t \<Rightarrow> error + string list" where
  "values_source block (TeamArgs a m) = (if block = ''teams'' then Inr a else Inl AttributeError)"
| "values_source block (Args xs) =
     (if block = ''teams'' then
        (case xs of [] \<Rightarrow> Inl IndexError | x # _ \<Rightarrow> Inr (map (\<lambda>c. [c]) x))
      else Inr xs)"


section \<open>Quantities the statements use\<close>

definition header_flags :: "item \<Rightarrow> string list" where
  "header_flags xs =
     concat (map (\<lambda>kv. if fst kv = ''header'' \<and> snd kv = PBool True then [''--header''] else []) xs)"

text \<open>Modelled from the spec: \<^verbatim>\<open>utils.is_url\<close> is not among the sources, and the spec
  says only that an argument "is a URL". The concrete evaluations below read that as
  the shape \<^verbatim>\<open>scheme://host...\<close> with a non-empty scheme and a non-empty host; the
  general statements hold for every predicate.\<close>

definition is_url :: "string \<Rightarrow> bool" where
  "is_url s =
     (let scheme = takeWhile (\<lambda>c. c \<noteq> CHR '':'') s;
          rest = dropWhile (\<lambda>c. c \<noteq> CHR '':'') s
      in scheme \<noteq> [] \<and> startswith rest ''://'' \<and>
         takeWhile (\<lambda>c. c \<noteq> CHR ''/'') (drop 3 rest) \<noteq> [])"

text \<open>The words "issues these calls, in order": each call goes through \<^verbatim>\<open>_tw_run\<close>
  in turn, the next one only when the one before has returned; the first exception
  ends the sequence and is the result.\<close>

fun run_calls ::
  "(tw_call \<Rightarrow> 'w \<Rightarrow> (error + string) \<times> 'w) \<Rightarrow> tw_call list \<Rightarrow> 'w tower
     \<Rightarrow> (error + unit) \<times> 'w tower"
where
  "run_calls run [] tw = (Inr (), tw)"
| "run_calls run (c # cs) tw =
     (case tw_run run c tw of
        (Inl e, tw') \<Rightarrow> (Inl e, tw')
      | (Inr out, tw') \<Rightarrow> run_calls run cs tw')"

text \<open>The spec's words for the filtered arguments of participants: the arguments
  minus each \<^verbatim>\<open>--role <value>\<close> pair, read from the left. The token after a
  \<^verbatim>\<open>--role\<close> is its value whatever it is, a second \<^verbatim>\<open>--role\<close> included.\<close>

fun strip_role_pairs :: "string list \<Rightarrow> string list" where
  "strip_role_pairs [] = []"
| "strip_role_pairs [a] = (if a = ''--role'' then [] else [a])"
| "strip_role_pairs (a # b # rest) =
     (if a = ''--role'' then strip_role_pairs rest else a # strip_role_pairs (b # rest))"

text \<open>The two calls of the participants claim.\<close>

definition participants_add :: "string list \<Rightarrow> tw_call" where
  "participants_add args = (''participants'', ''add'' # strip_role_pairs args)"

definition participants_update :: "string list \<Rightarrow> tw_call" where
  "participants_update args = (''participants'', ''update'' # args)"

text \<open>The spec's words for reverse mapping: the tokens that stand immediately after an
  occurrence of \<^verbatim>\<open>--key\<close> and are no flag themselves, in order of occurrence.\<close>

fun flag_values :: "string \<Rightarrow> string list \<Rightarrow> string list" where
  "flag_values k [] = []"
| "flag_values k [a] = []"
| "flag_values k (a # b # rest) =
     (if a = ''--'' @ k \<and> \<not> startswith b ''--'' then [b] else []) @ flag_values k (b # rest)"

text \<open>The values that count for a key when the loop stands before \<open>args\<close> with
  \<open>key\<close> pending: the next token, if the pending key is that key and the token is no
  flag, and then the values inside \<open>args\<close>.\<close>

definition pending_values :: "string option \<Rightarrow> string \<Rightarrow> string list \<Rightarrow> string list" where
  "pending_values key k args =
     (case args of
        [] \<Rightarrow> []
      | b # rest \<Rightarrow> (if key = Some k \<and> \<not> startswith b ''--'' then [b] else []) @ flag_values k args)"

text \<open>Modelled from the spec: \<^verbatim>\<open>utils.create_temp_yaml\<close> is not among the sources. The
  spec says that a \<^verbatim>\<open>params\<close> mapping "is serialized to a uniquely named temporary file
  on local disk" and that each such file "is uniquely named per invocation, never
  reused". The model's state is the list of the files written so far, each with its
  content; a new file is named after their number. The concrete evaluations below use
  it; the general statements hold for every helper.\<close>

definition temp_name :: "nat \<Rightarrow> string" where
  "temp_name n = ''/tmp/params'' @ dec_nat n @ ''.yaml''"

definition create_temp_yaml :: "pyval \<Rightarrow> (string \<times> pyval) list \<Rightarrow> string \<times> (string \<times> pyval) list" where
  "create_temp_yaml v files =
     (temp_name (length files), files @ [(temp_name (length files), v)])"

text \<open>The three parts of the pipelines layout: the positional repository arguments,
  the \<^verbatim>\<open>--params-file\<close> pairs (with the names the helper returns, in order), and the
  remaining flags.\<close>

definition pipelines_repo_args :: "item \<Rightarrow> string list" where
  "pipelines_repo_args item =
     concat (map (\<lambda>kv. if fst kv = ''url'' \<or> fst kv = ''file-path'' then [py_str (snd kv)] else [])
               item)"

definition pipelines_flags :: "item \<Rightarrow> string list" where
  "pipelines_flags item =
     concat (map (\<lambda>kv. if fst kv = ''url'' \<or> fst kv = ''params'' \<or> fst kv = ''file-path'' then []
                       else [''--'' @ fst kv, py_str (snd kv)])
               item)"

fun params_pairs :: "(pyval \<Rightarrow> 's \<Rightarrow> string \<times> 's) \<Rightarrow> item \<Rightarrow> 's \<Rightarrow> string list \<times> 's" where
  "params_pairs cty [] s = ([], s)"
| "params_pairs cty ((key, v) # rest) s =
     (if key = ''params'' then
        (case cty v s of (nm, s') \<Rightarrow>
           (case params_pairs cty rest s' of (ps, s'') \<Rightarrow> (''--params-file'' # nm # ps, s'')))
      else params_pairs cty rest s)"

text \<open>The two parts of the launch layout: the positional repository arguments, and the
  flags in the order of the item's fields, the \<^verbatim>\<open>--params-file\<close> pair among them.\<close>

definition launch_repo_args :: "item \<Rightarrow> string list" where
  "launch_repo_args item =
     concat (map (\<lambda>kv. if fst kv = ''pipeline'' \<or> fst kv = ''url'' then [py_str (snd kv)] else [])
               item)"

fun launch_flags :: "(pyval \<Rightarrow> 's \<Rightarrow> string \<times> 's) \<Rightarrow> item \<Rightarrow> 's \<Rightarrow> string list \<times> 's" where
  "launch_flags cty [] s = ([], s)"
| "launch_flags cty ((key, v) # rest) s =
     (if key = ''pipeline'' \<or> key = ''url'' then launch_flags cty rest s
      else if key = ''params'' then
        (case cty v s of (nm, s') \<Rightarrow>
           (case launch_flags cty rest s' of (fs, s'') \<Rightarrow> (''--params-file'' # nm # fs, s'')))
      else
        (case launch_flags cty rest s of (fs, s') \<Rightarrow> ((''--'' @ key) # py_str v # fs, s')))"

text \<open>Two argument lists that agree everywhere except, possibly, at a token that stands
  right after \<^verbatim>\<open>--params-file\<close>. \<open>prev\<close> is the token before the lists.\<close>

fun agree_after :: "string \<Rightarrow> string list \<Rightarrow> string list \<Rightarrow> bool" where
  "agree_after prev [] [] = True"
| "agree_after prev (x # xs) (y # ys) =
     ((x = y \<or> prev = ''--params-file'') \<and> agree_after x xs ys)"
| "agree_after prev [] (y # ys) = False"
| "agree_after prev (x # xs) [] = False"

definition same_but_temp_name :: "string list \<Rightarrow> string list \<Rightarrow> bool" where
  "same_but_temp_name xs ys = agree_after [] xs ys"


fun same_args_but_temp_name :: "error + cmd_args_t \<Rightarrow> error + cmd_args_t \<Rightarrow> bool" where
  "same_args_but_temp_name (Inr (Args xs)) (Inr (Args ys)) = same_but_temp_name xs ys"
| "same_args_but_temp_name a b = (a = b)"

text \<open>Every token of a command specification: the flat list, or for teams the primary
  list and the lists of the member commands.\<close>

fun spec_tokens :: "cmd_args_t \<Rightarrow> string list" where
  "spec_tokens (Args xs) = xs"
| "spec_tokens (TeamArgs xs ms) = xs @ concat ms"







text \<open>What a key contributes to the arguments when every field is a flag: the
  renderings of the values stored under it.\<close>

definition kv_values :: "string \<Rightarrow> item \<Rightarrow> string list" where
  "kv_values k item = concat (map (\<lambda>kv. if fst kv = k then [py_str (snd kv)] else []) item)"

definition ends_value :: "string list \<Rightarrow> bool" where
  "ends_value xs = (xs = [] \<or> \<not> startswith (last xs) ''--'')"

section \<open>Theorems\<close>

subsection \<open>Calls through Tower\<close>

lemma tw_run_nul:
  "has_nul c \<Longrightarrow> tw_run run c tw = (Inl ValueError, tw)"
  by (simp add: tw_run_def)

lemma tw_run_started:
  "\<not> has_nul c \<Longrightarrow> run c (world tw) = (r, w') \<Longrightarrow>
   tw_run run c tw = (r, \<lparr>issued = issued tw @ [c], world = w'\<rparr>)"
  by (simp add: tw_run_def)

lemma getattr_cmd_json [simp]: "getattr_cmd ''-o json'' = ''-o json''"
  by (simp add: getattr_cmd_def)

lemma getattr_cmd_workspaces [simp]: "getattr_cmd ''workspaces'' = ''workspaces''"
  by (simp add: getattr_cmd_def)

lemma getattr_cmd_participants [simp]: "getattr_cmd ''participants'' = ''participants''"
  by (simp add: getattr_cmd_def)

lemma getattr_cmd_pipelines [simp]: "getattr_cmd ''pipelines'' = ''pipelines''"
  by (simp add: getattr_cmd_def)

subsection \<open>C2: participants are added, then updated\<close>

lemma strip_role_pairs_role [simp]:
  "strip_role_pairs (''--role'' # xs) = strip_role_pairs (drop 1 xs)"
  by (cases xs) simp_all

lemma strip_role_pairs_other [simp]:
  "a \<noteq> ''--role'' \<Longrightarrow> strip_role_pairs (a # xs) = a # strip_role_pairs xs"
  by (cases xs) simp_all

lemma role_loop_strip:
  "role_loop args acc False = acc @ strip_role_pairs args \<and>
   role_loop args acc True = acc @ strip_role_pairs (drop 1 args)"
proof (induction args arbitrary: acc)
  case Nil
  show ?case by simp
next
  case (Cons a args)
  show ?case
  proof (cases "a = ''--role''")
    case True
    then show ?thesis using Cons.IH by simp
  next
    case False
    then show ?thesis using Cons.IH by simp
  qed
qed

lemma set_strip_role_pairs: "set (strip_role_pairs args) \<subseteq> set args"
  by (induction args rule: strip_role_pairs.induct) auto

lemma has_nul_participants_add:
  "has_nul (participants_add args) \<Longrightarrow> has_nul (participants_update args)"
  using set_strip_role_pairs [of args]
  by (auto simp: has_nul_def participants_add_def participants_update_def list_ex_iff)

lemma handle_participants_run_calls:
  "handle_participants run args tw =
     run_calls run [participants_add args, participants_update args] tw"
  by (simp add: handle_participants_def Let_def bind_tw_def lift_tw_def tw_invoke_def
        role_loop_strip participants_add_def participants_update_def
        split: prod.splits sum.splits)

text \<open>
  C2, as the code has it. For every argument list the participants handler makes its
  calls in this order: \<^verbatim>\<open>add\<close> with the arguments minus every \<^verbatim>\<open>--role <value>\<close> pair,
  then, only when \<^verbatim>\<open>add\<close> has returned, \<^verbatim>\<open>update\<close> with the arguments unchanged. When no
  argument holds a NUL character and the process of \<^verbatim>\<open>add\<close> returns, both processes are
  run, \<^verbatim>\<open>update\<close> in the state that \<^verbatim>\<open>add\<close> left, and the result is that of \<^verbatim>\<open>update\<close>.
  When \<^verbatim>\<open>add\<close> raises, its exception is the result and \<^verbatim>\<open>update\<close> is never issued: with
  a NUL character among the arguments of \<^verbatim>\<open>add\<close> no process is run at all.
\<close>

theorem handle_participants_add_then_update:
  "handle_participants run args tw =
     run_calls run [participants_add args, participants_update args] tw \<and>
   (\<not> has_nul (participants_update args) \<longrightarrow>
    run (participants_add args) (world tw) = (Inr added, w1) \<longrightarrow>
    run (participants_update args) w1 = (r, w2) \<longrightarrow>
      handle_participants run args tw =
        ((case r of Inl e \<Rightarrow> Inl e | Inr updated \<Rightarrow> Inr ()),
         \<lparr>issued = issued tw @ [participants_add args, participants_update args],
          world = w2\<rparr>)) \<and>
   (\<not> has_nul (participants_add args) \<longrightarrow>
    run (participants_add args) (world tw) = (Inl e1, w1) \<longrightarrow>
      handle_participants run args tw =
        (Inl e1, \<lparr>issued = issued tw @ [participants_add args], world = w1\<rparr>)) \<and>
   (has_nul (participants_add args) \<longrightarrow>
      handle_participants run args tw = (Inl ValueError, tw))"
proof (intro conjI impI)
  show "handle_participants run args tw =
     run_calls run [participants_add args, participants_update args] tw"
    by (rule handle_participants_run_calls)
next
  assume nul: "\<not> has_nul (participants_update args)"
    and a: "run (participants_add args) (world tw) = (Inr added, w1)"
    and u: "run (participants_update args) w1 = (r, w2)"
  from nul have nul_add: "\<not> has_nul (participants_add args)"
    using has_nul_participants_add by blast
  let ?tw1 = "\<lparr>issued = issued tw @ [participants_add args], world = w1\<rparr>"
  have s1: "tw_run run (participants_add args) tw = (Inr added, ?tw1)"
    using nul_add a by (rule tw_run_started)
  have "run (participants_update args) (world ?tw1) = (r, w2)" using u by simp
  with nul have s2: "tw_run run (participants_update args) ?tw1 =
      (r, \<lparr>issued = issued ?tw1 @ [participants_update args], world = w2\<rparr>)"
    by (rule tw_run_started)
  show "handle_participants run args tw =
        ((case r of Inl e \<Rightarrow> Inl e | Inr updated \<Rightarrow> Inr ()),
         \<lparr>issued = issued tw @ [participants_add args, participants_update args],
          world = w2\<rparr>)"
    by (simp add: handle_participants_run_calls s1 s2 split: sum.splits)
next
  assume nul: "\<not> has_nul (participants_add args)"
    and a: "run (participants_add args) (world tw) = (Inl e1, w1)"
  have s1: "tw_run run (participants_add args) tw =
      (Inl e1, \<lparr>issued = issued tw @ [participants_add args], world = w1\<rparr>)"
    using nul a by (rule tw_run_started)
  show "handle_participants run args tw =
        (Inl e1, \<lparr>issued = issued tw @ [participants_add args], world = w1\<rparr>)"
    by (simp add: handle_participants_run_calls s1)
next
  assume "has_nul (participants_add args)"
  then have "tw_run run (participants_add args) tw = (Inl ValueError, tw)"
    by (rule tw_run_nul)
  then show "handle_participants run args tw = (Inl ValueError, tw)"
    by (simp add: handle_participants_run_calls)
qed

theorem handle_participants_add_then_update_witness:
  "handle_participants (\<lambda>c w. (Inr ''ok'', w @ [c]))
     [''--name'', ''dev@acme.io'', ''--type'', ''MEMBER'', ''--role'', ''admin'',
      ''--workspace'', ''acme/dev'']
     \<lparr>issued = [], world = []\<rparr> =
   (Inr (),
    \<lparr>issued =
       [(''participants'', [''add'', ''--name'', ''dev@acme.io'', ''--type'', ''MEMBER'',
                            ''--workspace'', ''acme/dev'']),
        (''participants'', [''update'', ''--name'', ''dev@acme.io'', ''--type'', ''MEMBER'',
                            ''--role'', ''admin'', ''--workspace'', ''acme/dev''])],
     world =
       [(''participants'', [''add'', ''--name'', ''dev@acme.io'', ''--type'', ''MEMBER'',
                            ''--workspace'', ''acme/dev'']),
        (''participants'', [''update'', ''--name'', ''dev@acme.io'', ''--type'', ''MEMBER'',
                            ''--role'', ''admin'', ''--workspace'', ''acme/dev''])]\<rparr>) \<and>
   handle_participants (\<lambda>c w. (Inl OSError, w @ [c]))
     [''--name'', ''dev@acme.io'', ''--type'', ''MEMBER'', ''--role'', ''admin'',
      ''--workspace'', ''acme/dev'']
     \<lparr>issued = [], world = []\<rparr> =
   (Inl OSError,
    \<lparr>issued =
       [(''participants'', [''add'', ''--name'', ''dev@acme.io'', ''--type'', ''MEMBER'',
                            ''--workspace'', ''acme/dev''])],
     world =
       [(''participants'', [''add'', ''--name'', ''dev@acme.io'', ''--type'', ''MEMBER'',
                            ''--workspace'', ''acme/dev''])]\<rparr>)"
proof -
  let ?args = "[''--name'', ''dev@acme.io'', ''--type'', ''MEMBER'', ''--role'', ''admin'',
      ''--workspace'', ''acme/dev'']"
  let ?add = "(''participants'', [''add'', ''--name'', ''dev@acme.io'', ''--type'', ''MEMBER'',
                            ''--workspace'', ''acme/dev''])"
  let ?upd = "(''participants'', [''update'', ''--name'', ''dev@acme.io'', ''--type'', ''MEMBER'',
                            ''--role'', ''admin'', ''--workspace'', ''acme/dev''])"
  let ?tw = "\<lparr>issued = [] :: tw_call list, world = [] :: tw_call list\<rparr>"
  have add: "participants_add ?args = ?add" by (simp add: participants_add_def)
  have upd: "participants_update ?args = ?upd" by (simp add: participants_update_def)
  have nul_add: "\<not> has_nul (participants_add ?args)" unfolding add by (simp add: has_nul_def)
  have nul_upd: "\<not> has_nul (participants_update ?args)" unfolding upd by (simp add: has_nul_def)
  from handle_participants_add_then_update
    [where run = "\<lambda>c w. (Inr ''ok'', w @ [c])" and args = ?args and tw = ?tw
       and added = "''ok''" and ?w1.0 = "[?add]" and r = "Inr ''ok''" and ?w2.0 = "[?add, ?upd]",
     THEN conjunct2, THEN conjunct1]
    nul_upd
  have ok: "handle_participants (\<lambda>c w. (Inr ''ok'', w @ [c])) ?args ?tw =
      (Inr (), \<lparr>issued = [?add, ?upd], world = [?add, ?upd]\<rparr>)"
    by (simp add: add upd)
  from handle_participants_add_then_update
    [where run = "\<lambda>c w. (Inl OSError, w @ [c])" and args = ?args and tw = ?tw
       and ?e1.0 = OSError and ?w1.0 = "[?add]",
     THEN conjunct2, THEN conjunct2, THEN conjunct1]
    nul_add
  have failed: "handle_participants (\<lambda>c w. (Inl OSError, w @ [c])) ?args ?tw =
      (Inl OSError, \<lparr>issued = [?add], world = [?add]\<rparr>)"
    by (simp add: add)
  from ok failed show ?thesis by simp
qed

text \<open>An argument that holds a NUL character (YAML writes it \<^verbatim>\<open>"\0"\<close>) makes
  \<^verbatim>\<open>Popen\<close> raise \<^verbatim>\<open>ValueError\<close> on \<^verbatim>\<open>add\<close>: no process is run and \<^verbatim>\<open>update\<close> is never
  issued. A process whose output is not UTF-8 makes \<^verbatim>\<open>add\<close> raise
  \<^verbatim>\<open>UnicodeDecodeError\<close>: one call is issued, not two.\<close>

theorem handle_participants_raising_add_counterexample:
  "handle_participants (\<lambda>c w. (Inr ''ok'', w @ [c]))
     [''--name'', ''dev'' @ [CHR 0x00], ''--type'', ''MEMBER'', ''--role'', ''admin'']
     \<lparr>issued = [], world = []\<rparr> =
   (Inl ValueError, \<lparr>issued = [], world = []\<rparr>) \<and>
   handle_participants (\<lambda>c w. (Inl UnicodeDecodeError, w @ [c]))
     [''--name'', ''dev'', ''--type'', ''MEMBER'', ''--role'', ''admin'']
     \<lparr>issued = [], world = []\<rparr> =
   (Inl UnicodeDecodeError,
    \<lparr>issued = [(''participants'', [''add'', ''--name'', ''dev'', ''--type'', ''MEMBER''])],
     world = [(''participants'', [''add'', ''--name'', ''dev'', ''--type'', ''MEMBER''])]\<rparr>)"
  by (simp add: handle_participants_def Let_def bind_tw_def lift_tw_def tw_invoke_def
        tw_run_def has_nul_def)

subsection \<open>C1: the pipelines dispatcher\<close>

text \<open>What the dispatcher does, for every predicate \<open>isu\<close> in the place of
  \<^verbatim>\<open>utils.is_url\<close>: one \<^verbatim>\<open>import\<close> for each argument before the first URL that contains
  \<^verbatim>\<open>.json\<close>, then one \<^verbatim>\<open>add\<close> if there is a URL, each call made only when those before
  it have returned.\<close>

lemma pipelines_dispatch_run_calls:
  "pipelines_dispatch run isu args rest tw =
     run_calls run
       (replicate (length (filter (contains ''.json'') (takeWhile (\<lambda>a. \<not> isu a) rest)))
          (''pipelines'', ''import'' # args) @
        (if list_ex isu rest then [(''pipelines'', ''add'' # args)] else []))
       tw"
proof (induction rest arbitrary: tw)
  case Nil
  show ?case by simp
next
  case (Cons a rest)
  show ?case
    by (simp add: Cons.IH tw_invoke_def split: prod.splits sum.splits)
qed

text \<open>
  C1 says that exactly one command is issued, \<^verbatim>\<open>add\<close> or \<^verbatim>\<open>import\<close>, the first match
  winning. The source's comment says the same ("use the appropriate method and break"),
  but only the URL branch has the \<^verbatim>\<open>break\<close>. With two arguments that contain
  \<^verbatim>\<open>.json\<close> and no URL the handler makes the \<^verbatim>\<open>import\<close> call and, when it has returned,
  makes it again; with a \<^verbatim>\<open>.json\<close> argument before a URL it makes the \<^verbatim>\<open>import\<close> call and
  then the \<^verbatim>\<open>add\<close> call. This holds for every process and every state. With a process
  that answers every call (output \<open>out\<close>, next state \<open>step\<close>) two calls are issued and
  two processes are run on either input.
\<close>

theorem handle_pipelines_repeats_import:
  "handle_pipelines run is_url
     [''hello.json'', ''--name'', ''hello'', ''--description'', ''from hello.json''] tw =
     run_calls run
       [(''pipelines'', [''import'', ''hello.json'', ''--name'', ''hello'', ''--description'',
                         ''from hello.json'']),
        (''pipelines'', [''import'', ''hello.json'', ''--name'', ''hello'', ''--description'',
                         ''from hello.json''])] tw \<and>
   handle_pipelines run is_url
     [''hello.json'', ''https://github.com/nextflow-io/hello''] tw =
     run_calls run
       [(''pipelines'', [''import'', ''hello.json'', ''https://github.com/nextflow-io/hello'']),
        (''pipelines'', [''add'', ''hello.json'', ''https://github.com/nextflow-io/hello''])] tw \<and>
   handle_pipelines (\<lambda>c w. (Inr (out c w), step c w)) is_url
     [''hello.json'', ''--name'', ''hello'', ''--description'', ''from hello.json''] tw =
     (Inr (),
      \<lparr>issued = issued tw @
         [(''pipelines'', [''import'', ''hello.json'', ''--name'', ''hello'', ''--description'',
                           ''from hello.json'']),
          (''pipelines'', [''import'', ''hello.json'', ''--name'', ''hello'', ''--description'',
                           ''from hello.json''])],
       world =
         step (''pipelines'', [''import'', ''hello.json'', ''--name'', ''hello'', ''--description'',
                           ''from hello.json''])
           (step (''pipelines'', [''import'', ''hello.json'', ''--name'', ''hello'', ''--description'',
                           ''from hello.json''])
              (world tw))\<rparr>) \<and>
   handle_pipelines (\<lambda>c w. (Inr (out c w), step c w)) is_url
     [''hello.json'', ''https://github.com/nextflow-io/hello''] tw =
     (Inr (),
      \<lparr>issued = issued tw @
         [(''pipelines'', [''import'', ''hello.json'', ''https://github.com/nextflow-io/hello'']),
          (''pipelines'', [''add'', ''hello.json'', ''https://github.com/nextflow-io/hello''])],
       world =
         step (''pipelines'', [''add'', ''hello.json'', ''https://github.com/nextflow-io/hello''])
           (step (''pipelines'', [''import'', ''hello.json'', ''https://github.com/nextflow-io/hello''])
              (world tw))\<rparr>)"
proof (intro conjI)
  show "handle_pipelines run is_url
     [''hello.json'', ''--name'', ''hello'', ''--description'', ''from hello.json''] tw =
     run_calls run
       [(''pipelines'', [''import'', ''hello.json'', ''--name'', ''hello'', ''--description'',
                         ''from hello.json'']),
        (''pipelines'', [''import'', ''hello.json'', ''--name'', ''hello'', ''--description'',
                         ''from hello.json''])] tw"
    by (simp add: handle_pipelines_def pipelines_dispatch_run_calls is_url_def startswith_def)
  show "handle_pipelines run is_url
     [''hello.json'', ''https://github.com/nextflow-io/hello''] tw =
     run_calls run
       [(''pipelines'', [''import'', ''hello.json'', ''https://github.com/nextflow-io/hello'']),
        (''pipelines'', [''add'', ''hello.json'', ''https://github.com/nextflow-io/hello''])] tw"
    by (simp add: handle_pipelines_def pipelines_dispatch_run_calls is_url_def startswith_def)
  show "handle_pipelines (\<lambda>c w. (Inr (out c w), step c w)) is_url
     [''hello.json'', ''--name'', ''hello'', ''--description'', ''from hello.json''] tw =
     (Inr (),
      \<lparr>issued = issued tw @
         [(''pipelines'', [''import'', ''hello.json'', ''--name'', ''hello'', ''--description'',
                           ''from hello.json'']),
          (''pipelines'', [''import'', ''hello.json'', ''--name'', ''hello'', ''--description'',
                           ''from hello.json''])],
       world =
         step (''pipelines'', [''import'', ''hello.json'', ''--name'', ''hello'', ''--description'',
                           ''from hello.json''])
           (step (''pipelines'', [''import'', ''hello.json'', ''--name'', ''hello'', ''--description'',
                           ''from hello.json''])
              (world tw))\<rparr>)"
    by (simp add: handle_pipelines_def tw_invoke_def tw_run_def has_nul_def is_url_def
          startswith_def)
  show "handle_pipelines (\<lambda>c w. (Inr (out c w), step c w)) is_url
     [''hello.json'', ''https://github.com/nextflow-io/hello''] tw =
     (Inr (),
      \<lparr>issued = issued tw @
         [(''pipelines'', [''import'', ''hello.json'', ''https://github.com/nextflow-io/hello'']),
          (''pipelines'', [''add'', ''hello.json'', ''https://github.com/nextflow-io/hello''])],
       world =
         step (''pipelines'', [''add'', ''hello.json'', ''https://github.com/nextflow-io/hello''])
           (step (''pipelines'', [''import'', ''hello.json'', ''https://github.com/nextflow-io/hello''])
              (world tw))\<rparr>)"
    by (simp add: handle_pipelines_def tw_invoke_def tw_run_def has_nul_def is_url_def
          startswith_def)
qed

subsection \<open>The names of the modelled temporary files\<close>

lemma temp_name_0: "temp_name 0 = ''/tmp/params0.yaml''"
  by (simp add: temp_name_def dec_nat.simps digit_char_def)


subsection \<open>C6: the layout of pipelines and launch arguments\<close>

lemma pipelines_loop_layout:
  "pipelines_loop cty item acc repo_args params_args s =
     (repo_args @ pipelines_repo_args item @ params_args @ fst (params_pairs cty item s) @
      acc @ pipelines_flags item,
      snd (params_pairs cty item s))"
proof (induction item arbitrary: acc repo_args params_args s)
  case Nil
  show ?case by (simp add: pipelines_repo_args_def pipelines_flags_def)
next
  case (Cons kv item)
  obtain key v where kv: "kv = (key, v)" by (cases kv)
  show ?case
    unfolding kv
    by (simp add: Cons.IH pipelines_repo_args_def pipelines_flags_def split: prod.splits)
qed

lemma launch_loop_layout:
  "launch_loop cty item repo_args acc s =
     (repo_args @ launch_repo_args item @ acc @ fst (launch_flags cty item s),
      snd (launch_flags cty item s))"
proof (induction item arbitrary: acc repo_args s)
  case Nil
  show ?case by (simp add: launch_repo_args_def)
next
  case (Cons kv item)
  obtain key v where kv: "kv = (key, v)" by (cases kv)
  show ?case
    unfolding kv
    by (simp add: Cons.IH launch_repo_args_def split: prod.splits)
qed

text \<open>
  C6, as amended. Whatever the order of the item's fields, the pipelines mapper puts the
  positional repository arguments first (the values of \<^verbatim>\<open>url\<close> and \<^verbatim>\<open>file-path\<close>, in
  field order), then the \<^verbatim>\<open>--params-file\<close> pair, then every other field as a flag in
  field order. The launch mapper puts the positional repository arguments first (the
  values of \<^verbatim>\<open>pipeline\<close> and \<^verbatim>\<open>url\<close>), then every other field in field order, the
  \<^verbatim>\<open>--params-file\<close> pair standing where \<^verbatim>\<open>params\<close> stands among them; \<^verbatim>\<open>file-path\<close> is an
  ordinary flag for launch, \<^verbatim>\<open>pipeline\<close> an ordinary flag for pipelines.
\<close>

theorem pipelines_and_launch_layout:
  "parse_pipelines_block cty item s =
     (pipelines_repo_args item @ fst (params_pairs cty item s) @ pipelines_flags item,
      snd (params_pairs cty item s)) \<and>
   parse_launch_block cty item s =
     (launch_repo_args item @ fst (launch_flags cty item s), snd (launch_flags cty item s))"
  by (simp add: parse_pipelines_block_def parse_launch_block_def pipelines_loop_layout
        launch_loop_layout)

text \<open>
  C6 as stated fails for launch: with \<^verbatim>\<open>name\<close> before \<^verbatim>\<open>params\<close> in the item, the
  \<^verbatim>\<open>--params-file\<close> pair comes after the flag \<^verbatim>\<open>--name\<close>, not before it.
\<close>

theorem launch_params_file_counterexample:
  "fst (parse_launch_block create_temp_yaml
          [(''name'', PStr ''run1''), (''params'', PDict [(''outdir'', PStr ''results'')]),
           (''pipeline'', PStr ''nf-core/rnaseq'')] []) =
     [''nf-core/rnaseq'', ''--name'', ''run1'', ''--params-file'', ''/tmp/params0.yaml'']"
  by (simp add: parse_launch_block_def create_temp_yaml_def temp_name_0 py_str_def)

subsection \<open>C7: mapping the same item twice\<close>


lemma agree_after_refl [simp]: "agree_after p xs xs"
  by (induction xs arbitrary: p) simp_all


lemma same_but_temp_name_refl [simp]: "same_but_temp_name xs xs"
  by (simp add: same_but_temp_name_def)


lemma same_but_temp_name_pair [simp]:
  "same_but_temp_name [''--params-file'', a] [''--params-file'', b]"
  by (simp add: same_but_temp_name_def)







lemma same_args_but_temp_name_refl [simp]: "same_args_but_temp_name a a"
proof (cases a)
  case (Inl e)
  then show ?thesis by simp
next
  case (Inr c)
  then show ?thesis by (cases c) simp_all
qed













subsection \<open>C9: the overwrite field does not come back as a flag\<close>

lemma generic_loop_no_overwrite:
  "''overwrite'' \<notin> fst ` set item \<Longrightarrow>
   \<forall>kv \<in> set item. py_str (snd kv) \<noteq> ''--overwrite'' \<Longrightarrow>
   ''--overwrite'' \<notin> set acc \<Longrightarrow>
   ''--overwrite'' \<notin> set (generic_loop item acc)"
  by (induction item arbitrary: acc) auto

lemma credentials_loop_no_overwrite:
  "''overwrite'' \<notin> fst ` set item \<Longrightarrow>
   \<forall>kv \<in> set item. py_str (snd kv) \<noteq> ''--overwrite'' \<Longrightarrow>
   ''--overwrite'' \<notin> set acc \<Longrightarrow>
   ''--overwrite'' \<notin> set (credentials_loop item acc)"
proof (induction item arbitrary: acc)
  case Nil
  then show ?case by simp
next
  case (Cons kv item)
  obtain key v where kv: "kv = (key, v)" by (cases kv)
  from Cons.prems kv have k: "key \<noteq> ''overwrite''" and v: "py_str v \<noteq> ''--overwrite''"
    and r: "''overwrite'' \<notin> fst ` set item" "\<forall>kv \<in> set item. py_str (snd kv) \<noteq> ''--overwrite''"
    by auto
  show ?case
  proof (cases "key = ''type''")
    case True
    from v Cons.prems(3) have "''--overwrite'' \<notin> set (acc @ [py_str v])" by simp
    from Cons.IH [OF r this] True show ?thesis by (simp add: kv)
  next
    case False
    from k v Cons.prems(3) have "''--overwrite'' \<notin> set (acc @ [''--'' @ key, py_str v])" by simp
    from Cons.IH [OF r this] False show ?thesis by (simp add: kv)
  qed
qed

lemma compute_envs_loop_no_overwrite:
  "''overwrite'' \<notin> fst ` set item \<Longrightarrow>
   \<forall>kv \<in> set item. py_str (snd kv) \<noteq> ''--overwrite'' \<Longrightarrow>
   ''--overwrite'' \<notin> set acc \<Longrightarrow>
   ''--overwrite'' \<notin> set (compute_envs_loop item acc)"
proof (induction item arbitrary: acc)
  case Nil
  then show ?case by simp
next
  case (Cons kv item)
  obtain key v where kv: "kv = (key, v)" by (cases kv)
  from Cons.prems kv have k: "key \<noteq> ''overwrite''" and v: "py_str v \<noteq> ''--overwrite''"
    and r: "''overwrite'' \<notin> fst ` set item" "\<forall>kv \<in> set item. py_str (snd kv) \<noteq> ''--overwrite''"
    by auto
  show ?case
  proof (cases "key = ''file-path''")
    case True
    from v Cons.prems(3) have "''--overwrite'' \<notin> set (acc @ [py_str v])" by simp
    from Cons.IH [OF r this] True show ?thesis by (simp add: kv)
  next
    case False
    from k v Cons.prems(3) have "''--overwrite'' \<notin> set (acc @ [''--'' @ key, py_str v])" by simp
    from Cons.IH [OF r this] False show ?thesis by (simp add: kv)
  qed
qed

lemma actions_loop_no_overwrite:
  "''overwrite'' \<notin> fst ` set item \<Longrightarrow>
   \<forall>kv \<in> set item. py_str (snd kv) \<noteq> ''--overwrite'' \<Longrightarrow>
   \<forall>v t. fst (cty v t) \<noteq> ''--overwrite'' \<Longrightarrow>
   ''--overwrite'' \<notin> set acc \<Longrightarrow>
   ''--overwrite'' \<notin> set (fst (actions_loop cty item acc s))"
proof (induction item arbitrary: acc s)
  case Nil
  then show ?case by simp
next
  case (Cons kv item)
  obtain key v where kv: "kv = (key, v)" by (cases kv)
  obtain nm s' where c: "cty v s = (nm, s')" by (cases "cty v s")
  from Cons.prems(3) c have nm: "nm \<noteq> ''--overwrite''" by (metis fst_conv)
  from Cons.prems(1,2) kv have k: "key \<noteq> ''overwrite''" and v: "py_str v \<noteq> ''--overwrite''"
    and r: "''overwrite'' \<notin> fst ` set item" "\<forall>kv \<in> set item. py_str (snd kv) \<noteq> ''--overwrite''"
    by auto
  note IH = Cons.IH [OF r Cons.prems(3)]
  have a: "''--overwrite'' \<notin> set (acc @ [py_str v])"
    "''--overwrite'' \<notin> set (acc @ [''--params-file'', nm])"
    "''--overwrite'' \<notin> set (acc @ [''--'' @ key, py_str v])"
    using k v nm Cons.prems(4) by simp_all
  consider "key = ''type''" | "key \<noteq> ''type''" "key = ''params''"
    | "key \<noteq> ''type''" "key \<noteq> ''params''" by blast
  then show ?case
  proof cases
    case 1
    with IH [OF a(1)] show ?thesis by (simp add: kv)
  next
    case 2
    with IH [OF a(2)] show ?thesis by (simp add: kv c)
  next
    case 3
    with IH [OF a(3)] show ?thesis by (simp add: kv)
  qed
qed

lemma pipelines_loop_no_overwrite:
  "''overwrite'' \<notin> fst ` set item \<Longrightarrow>
   \<forall>kv \<in> set item. py_str (snd kv) \<noteq> ''--overwrite'' \<Longrightarrow>
   \<forall>v t. fst (cty v t) \<noteq> ''--overwrite'' \<Longrightarrow>
   ''--overwrite'' \<notin> set acc \<Longrightarrow> ''--overwrite'' \<notin> set ra \<Longrightarrow> ''--overwrite'' \<notin> set pa \<Longrightarrow>
   ''--overwrite'' \<notin> set (fst (pipelines_loop cty item acc ra pa s))"
proof (induction item arbitrary: acc ra pa s)
  case Nil
  then show ?case by simp
next
  case (Cons kv item)
  obtain key v where kv: "kv = (key, v)" by (cases kv)
  obtain nm s' where c: "cty v s = (nm, s')" by (cases "cty v s")
  from Cons.prems(3) c have nm: "nm \<noteq> ''--overwrite''" by (metis fst_conv)
  from Cons.prems(1,2) kv have k: "key \<noteq> ''overwrite''" and v: "py_str v \<noteq> ''--overwrite''"
    and r: "''overwrite'' \<notin> fst ` set item" "\<forall>kv \<in> set item. py_str (snd kv) \<noteq> ''--overwrite''"
    by auto
  note IH = Cons.IH [OF r Cons.prems(3)]
  have a: "''--overwrite'' \<notin> set (ra @ [py_str v])"
    "''--overwrite'' \<notin> set (pa @ [''--params-file'', nm])"
    "''--overwrite'' \<notin> set (acc @ [''--'' @ key, py_str v])"
    using k v nm Cons.prems(4,5,6) by simp_all
  consider "key = ''url''" | "key \<noteq> ''url''" "key = ''params''"
    | "key \<noteq> ''url''" "key \<noteq> ''params''" "key = ''file-path''"
    | "key \<noteq> ''url''" "key \<noteq> ''params''" "key \<noteq> ''file-path''" by blast
  then show ?case
  proof cases
    case 1
    with IH [OF Cons.prems(4) a(1) Cons.prems(6)] show ?thesis by (simp add: kv)
  next
    case 2
    with IH [OF Cons.prems(4) Cons.prems(5) a(2)] show ?thesis by (simp add: kv c)
  next
    case 3
    with IH [OF Cons.prems(4) a(1) Cons.prems(6)] show ?thesis by (simp add: kv)
  next
    case 4
    with IH [OF a(3) Cons.prems(5) Cons.prems(6)] show ?thesis by (simp add: kv)
  qed
qed

lemma launch_loop_no_overwrite:
  "''overwrite'' \<notin> fst ` set item \<Longrightarrow>
   \<forall>kv \<in> set item. py_str (snd kv) \<noteq> ''--overwrite'' \<Longrightarrow>
   \<forall>v t. fst (cty v t) \<noteq> ''--overwrite'' \<Longrightarrow>
   ''--overwrite'' \<notin> set acc \<Longrightarrow> ''--overwrite'' \<notin> set ra \<Longrightarrow>
   ''--overwrite'' \<notin> set (fst (launch_loop cty item ra acc s))"
proof (induction item arbitrary: acc ra s)
  case Nil
  then show ?case by simp
next
  case (Cons kv item)
  obtain key v where kv: "kv = (key, v)" by (cases kv)
  obtain nm s' where c: "cty v s = (nm, s')" by (cases "cty v s")
  from Cons.prems(3) c have nm: "nm \<noteq> ''--overwrite''" by (metis fst_conv)
  from Cons.prems(1,2) kv have k: "key \<noteq> ''overwrite''" and v: "py_str v \<noteq> ''--overwrite''"
    and r: "''overwrite'' \<notin> fst ` set item" "\<forall>kv \<in> set item. py_str (snd kv) \<noteq> ''--overwrite''"
    by auto
  note IH = Cons.IH [OF r Cons.prems(3)]
  have a: "''--overwrite'' \<notin> set (ra @ [py_str v])"
    "''--overwrite'' \<notin> set (acc @ [''--params-file'', nm])"
    "''--overwrite'' \<notin> set (acc @ [''--'' @ key, py_str v])"
    using k v nm Cons.prems(4,5) by simp_all
  consider "key = ''pipeline'' \<or> key = ''url''"
    | "key \<noteq> ''pipeline''" "key \<noteq> ''url''" "key = ''params''"
    | "key \<noteq> ''pipeline''" "key \<noteq> ''url''" "key \<noteq> ''params''" by blast
  then show ?case
  proof cases
    case 1
    with IH [OF Cons.prems(4) a(1)] show ?thesis by (auto simp: kv)
  next
    case 2
    with IH [OF a(2) Cons.prems(5)] show ?thesis by (simp add: kv c)
  next
    case 3
    with IH [OF a(3) Cons.prems(5)] show ?thesis by (simp add: kv)
  qed
qed

lemma getitem_value:
  "getitem item k = Inr v \<Longrightarrow> (k, v) \<in> set item"
  by (auto simp: getitem_def split: option.splits dest: map_of_SomeD)

lemma dataset_fields_no_overwrite:
  assumes "\<forall>kv \<in> set item. py_str (snd kv) \<noteq> ''--overwrite''"
    and "dataset_fields item = Inr fs"
  shows "''--overwrite'' \<notin> set fs"
proof -
  from assms(2) obtain fp nm ws ds where
    g: "getitem item ''file-path'' = Inr fp" "getitem item ''name'' = Inr nm"
       "getitem item ''workspace'' = Inr ws" "getitem item ''description'' = Inr ds"
    and fs: "fs = [py_str fp, ''--name'', py_str nm, ''--workspace'', py_str ws,
                   ''--description'', py_str ds]"
    by (auto simp: dataset_fields_def bind_err_def split: sum.splits)
  from g have "(''file-path'', fp) \<in> set item" "(''name'', nm) \<in> set item"
    "(''workspace'', ws) \<in> set item" "(''description'', ds) \<in> set item"
    by (simp_all add: getitem_value)
  with assms(1) have "py_str fp \<noteq> ''--overwrite''" "py_str nm \<noteq> ''--overwrite''"
    "py_str ws \<noteq> ''--overwrite''" "py_str ds \<noteq> ''--overwrite''"
    by fastforce+
  then show ?thesis by (auto simp: fs)
qed

lemma datasets_loop_no_overwrite:
  "\<forall>kv \<in> set item. py_str (snd kv) \<noteq> ''--overwrite'' \<Longrightarrow>
   ''--overwrite'' \<notin> set acc \<Longrightarrow>
   datasets_loop item rest acc = Inr out \<Longrightarrow>
   ''--overwrite'' \<notin> set out"
proof (induction rest arbitrary: acc)
  case Nil
  then show ?case by simp
next
  case (Cons kv rest)
  obtain key v where kv: "kv = (key, v)" by (cases kv)
  show ?case
  proof (cases "key = ''file-path''")
    case True
    with Cons.prems(3) kv obtain fs where fs: "dataset_fields item = Inr fs"
      and l: "datasets_loop item rest (acc @ fs) = Inr out"
      by (auto simp: bind_err_def split: sum.splits)
    from dataset_fields_no_overwrite [OF Cons.prems(1) fs] Cons.prems(2)
    have "''--overwrite'' \<notin> set (acc @ fs)" by simp
    from Cons.IH [OF Cons.prems(1) this l] show ?thesis .
  next
    case False
    with Cons.prems(3) kv have
      l: "datasets_loop item rest
            (if key = ''header'' \<and> v = PBool True then acc @ [''--header''] else acc) = Inr out"
      by (simp add: bind_err_def)
    from Cons.prems(2) have
      "''--overwrite'' \<notin> set (if key = ''header'' \<and> v = PBool True then acc @ [''--header''] else acc)"
      by simp
    from Cons.IH [OF Cons.prems(1) this l] show ?thesis .
  qed
qed

lemma members_loop_no_overwrite:
  "\<forall>kv \<in> set item. py_str (snd kv) \<noteq> ''--overwrite'' \<Longrightarrow>
   \<forall>m \<in> set ms. py_str m \<noteq> ''--overwrite'' \<Longrightarrow>
   ''--overwrite'' \<notin> set (concat macc) \<Longrightarrow>
   members_loop item ms macc = Inr out \<Longrightarrow>
   ''--overwrite'' \<notin> set (concat out)"
proof (induction ms arbitrary: macc)
  case Nil
  then show ?case by simp
next
  case (Cons m ms)
  from Cons.prems(4) obtain nm org where
    g: "getitem item ''name'' = Inr nm" "getitem item ''organization'' = Inr org"
    and l: "members_loop item ms
              (macc @ [[''--team'', py_str nm, ''--organization'', py_str org,
                        ''add'', ''--member'', py_str m]]) = Inr out"
    by (auto simp: bind_err_def split: sum.splits)
  from g have "(''name'', nm) \<in> set item" "(''organization'', org) \<in> set item"
    by (simp_all add: getitem_value)
  with Cons.prems(1) have "py_str nm \<noteq> ''--overwrite''" "py_str org \<noteq> ''--overwrite''"
    by fastforce+
  with Cons.prems(2,3) have
    "''--overwrite'' \<notin> set (concat (macc @ [[''--team'', py_str nm, ''--organization'', py_str org,
                        ''add'', ''--member'', py_str m]]))"
    by auto
  from Cons.IH [OF Cons.prems(1) _ this l] Cons.prems(2) show ?case by simp
qed

lemma teams_loop_no_overwrite:
  "\<forall>kv \<in> set item. py_str (snd kv) \<noteq> ''--overwrite'' \<Longrightarrow>
   \<forall>kv \<in> set rest. py_str (snd kv) \<noteq> ''--overwrite'' \<Longrightarrow>
   \<forall>kv \<in> set rest. \<forall>ms. fst kv = ''members'' \<and> py_iter (snd kv) = Inr ms \<longrightarrow>
      (\<forall>m \<in> set ms. py_str m \<noteq> ''--overwrite'') \<Longrightarrow>
   ''--overwrite'' \<notin> set acc \<Longrightarrow> ''--overwrite'' \<notin> set (concat macc) \<Longrightarrow>
   teams_loop item rest acc macc = Inr (a, out) \<Longrightarrow>
   ''--overwrite'' \<notin> set a \<and> ''--overwrite'' \<notin> set (concat out)"
proof (induction rest arbitrary: acc macc)
  case Nil
  then show ?case by simp
next
  case (Cons kv rest)
  obtain key v where kv: "kv = (key, v)" by (cases kv)
  from Cons.prems(2,3) kv have
    r: "\<forall>kv \<in> set rest. py_str (snd kv) \<noteq> ''--overwrite''"
       "\<forall>kv \<in> set rest. \<forall>ms. fst kv = ''members'' \<and> py_iter (snd kv) = Inr ms \<longrightarrow>
          (\<forall>m \<in> set ms. py_str m \<noteq> ''--overwrite'')"
    and v: "py_str v \<noteq> ''--overwrite''"
    and m: "\<And>ms. key = ''members'' \<Longrightarrow> py_iter v = Inr ms \<Longrightarrow>
              \<forall>m \<in> set ms. py_str m \<noteq> ''--overwrite''"
    by auto
  note IH = Cons.IH [OF Cons.prems(1) r]
  show ?case
  proof (cases "key \<in> set cmd_keys")
    case True
    then have "key \<noteq> ''overwrite''" by (auto simp: cmd_keys_def)
    with v Cons.prems(4) have "''--overwrite'' \<notin> set (acc @ [''--'' @ key, py_str v])" by simp
    moreover from Cons.prems(6) kv True
    have "teams_loop item rest (acc @ [''--'' @ key, py_str v]) macc = Inr (a, out)" by simp
    ultimately show ?thesis using IH Cons.prems(5) by blast
  next
    case False
    show ?thesis
    proof (cases "key = ''members''")
      case True
      with Cons.prems(6) kv False obtain ms macc' where
        it: "py_iter v = Inr ms" and ml: "members_loop item ms macc = Inr macc'"
        and l: "teams_loop item rest acc macc' = Inr (a, out)"
        by (auto simp: bind_err_def members_keys_def split: sum.splits)
      from members_loop_no_overwrite [OF Cons.prems(1) m [OF True it] Cons.prems(5) ml]
      have "''--overwrite'' \<notin> set (concat macc')" .
      with IH Cons.prems(4) l show ?thesis by blast
    next
      case nm: False
      with Cons.prems(6) kv False have "teams_loop item rest acc macc = Inr (a, out)" by simp
      with IH Cons.prems(4,5) show ?thesis by blast
    qed
  qed
qed

lemma pop_overwrite:
  assumes "dict_pop ''overwrite'' (PBool False) item = (ow, item')"
  shows "''overwrite'' \<notin> fst ` set item'" and "set item' \<subseteq> set item"
    and "ow = (case map_of item ''overwrite'' of None \<Rightarrow> PBool False | Some v \<Rightarrow> v)"
proof -
  show "''overwrite'' \<notin> fst ` set item'"
  proof (cases "map_of item ''overwrite''")
    case None
    then have "''overwrite'' \<notin> fst ` set item" by (simp add: map_of_eq_None_iff)
    with assms None show ?thesis by (simp add: dict_pop_def)
  next
    case (Some v)
    with assms have "item' = filter (\<lambda>kv. fst kv \<noteq> ''overwrite'') item"
      by (simp add: dict_pop_def)
    then show ?thesis by auto
  qed
  show "set item' \<subseteq> set item"
    using assms by (cases "map_of item ''overwrite''") (auto simp: dict_pop_def)
  show "ow = (case map_of item ''overwrite'' of None \<Rightarrow> PBool False | Some v \<Rightarrow> v)"
    using assms by (cases "map_of item ''overwrite''") (auto simp: dict_pop_def)
qed

lemma parse_fn_no_overwrite:
  assumes k: "''overwrite'' \<notin> fst ` set item"
    and vals: "\<forall>kv \<in> set item. py_str (snd kv) \<noteq> ''--overwrite''"
    and mem: "\<forall>kv \<in> set item. \<forall>ms. fst kv = ''members'' \<and> py_iter (snd kv) = Inr ms \<longrightarrow>
               (\<forall>m \<in> set ms. py_str m \<noteq> ''--overwrite'')"
    and tmp: "\<forall>v t. fst (cty v t) \<noteq> ''--overwrite''"
    and ok: "fst (parse_fn cty block_name item s) = Inr a"
  shows "''--overwrite'' \<notin> set (spec_tokens a)"
proof -
  consider (cred) "block_name = ''credentials''" | (ce) "block_name = ''compute-envs''"
    | (teams) "block_name = ''teams''" | (act) "block_name = ''actions''"
    | (ds) "block_name = ''datasets''" | (pl) "block_name = ''pipelines''"
    | (la) "block_name = ''launch''"
    | (gen) "block_name \<noteq> ''credentials''" "block_name \<noteq> ''compute-envs''"
        "block_name \<noteq> ''teams''" "block_name \<noteq> ''actions''" "block_name \<noteq> ''datasets''"
        "block_name \<noteq> ''pipelines''" "block_name \<noteq> ''launch''"
    by blast
  then show ?thesis
  proof cases
    case cred
    with ok have "a = Args (credentials_loop item [])"
      by (simp add: parse_fn_def parse_credentials_block_def)
    then show ?thesis using credentials_loop_no_overwrite [OF k vals, of "[]"] by simp
  next
    case ce
    with ok have "a = Args (compute_envs_loop item [])"
      by (simp add: parse_fn_def parse_compute_envs_block_def)
    then show ?thesis using compute_envs_loop_no_overwrite [OF k vals, of "[]"] by simp
  next
    case teams
    with ok obtain x m where a: "a = TeamArgs x m" and l: "teams_loop item item [] [] = Inr (x, m)"
      by (auto simp: parse_fn_def parse_teams_block_def split: sum.splits prod.splits)
    from teams_loop_no_overwrite [OF vals vals mem _ _ l] show ?thesis by (simp add: a)
  next
    case act
    with ok have "a = Args (fst (actions_loop cty item [] s))"
      by (auto simp: parse_fn_def parse_actions_block_def split: prod.splits)
    then show ?thesis using actions_loop_no_overwrite [OF k vals tmp, of "[]" s] by simp
  next
    case ds
    with ok obtain x where a: "a = Args x" and l: "datasets_loop item item [] = Inr x"
      by (auto simp: parse_fn_def parse_datasets_block_def split: sum.splits)
    from datasets_loop_no_overwrite [OF vals _ l] show ?thesis by (simp add: a)
  next
    case pl
    with ok have "a = Args (fst (pipelines_loop cty item [] [] [] s))"
      by (auto simp: parse_fn_def parse_pipelines_block_def split: prod.splits)
    then show ?thesis
      using pipelines_loop_no_overwrite [OF k vals tmp, of "[]" "[]" "[]" s] by simp
  next
    case la
    with ok have "a = Args (fst (launch_loop cty item [] [] s))"
      by (auto simp: parse_fn_def parse_launch_block_def split: prod.splits)
    then show ?thesis using launch_loop_no_overwrite [OF k vals tmp, of "[]" "[]" s] by simp
  next
    case gen
    with ok have "a = Args (generic_loop item [])"
      by (simp add: parse_fn_def parse_generic_block_def)
    then show ?thesis using generic_loop_no_overwrite [OF k vals, of "[]"] by simp
  qed
qed

lemma parse_block_Inr:
  assumes ok: "fst (parse_block cty block_name item s) = Inr spec"
    and p: "dict_pop ''overwrite'' (PBool False) item = (ow, item')"
  shows "\<exists>a. fst (parse_fn cty block_name item' s) = Inr a \<and>
             spec = \<lparr>cmd_args = a, overwrite = ow\<rparr>"
proof -
  obtain x t where pf: "parse_fn cty block_name item' s = (x, t)"
    by (cases "parse_fn cty block_name item' s")
  show ?thesis
  proof (cases x)
    case (Inl e)
    with ok p pf show ?thesis by (simp add: parse_block_def)
  next
    case (Inr a)
    with ok p pf show ?thesis by (simp add: parse_block_def)
  qed
qed

text \<open>
  C9, as amended. Block parsing removes the \<^verbatim>\<open>overwrite\<close> field before mapping, and no
  mapper produces a flag from it: when mapping succeeds, the token \<^verbatim>\<open>--overwrite\<close> is
  nowhere in the mapped arguments, unless another field's value, a team member or the name
  of a temporary file is itself the string \<^verbatim>\<open>--overwrite\<close>. The overwrite value is
  carried as the separate field of the command specification: the field's value, or
  false when the item has none.
\<close>

theorem overwrite_not_in_cmd_args:
  assumes vals: "\<forall>kv \<in> set item. fst kv \<noteq> ''overwrite'' \<longrightarrow> py_str (snd kv) \<noteq> ''--overwrite''"
    and mem: "\<forall>kv \<in> set item. \<forall>ms. fst kv = ''members'' \<and> py_iter (snd kv) = Inr ms \<longrightarrow>
               (\<forall>m \<in> set ms. py_str m \<noteq> ''--overwrite'')"
    and tmp: "\<forall>v t. fst (cty v t) \<noteq> ''--overwrite''"
    and ok: "fst (parse_block cty block_name item s) = Inr spec"
  shows "''--overwrite'' \<notin> set (spec_tokens (cmd_args spec)) \<and>
         overwrite spec = (case map_of item ''overwrite'' of None \<Rightarrow> PBool False | Some v \<Rightarrow> v)"
proof -
  obtain ow item' where p: "dict_pop ''overwrite'' (PBool False) item = (ow, item')"
    by (cases "dict_pop ''overwrite'' (PBool False) item")
  note po = pop_overwrite [OF p]
  from parse_block_Inr [OF ok p] obtain a where
    a: "fst (parse_fn cty block_name item' s) = Inr a"
    and spec: "spec = \<lparr>cmd_args = a, overwrite = ow\<rparr>"
    by blast
  have v': "\<forall>kv \<in> set item'. py_str (snd kv) \<noteq> ''--overwrite''"
  proof
    fix kv assume kv: "kv \<in> set item'"
    with po(1) have "fst kv \<noteq> ''overwrite''" by (metis imageI)
    moreover from kv po(2) have "kv \<in> set item" by blast
    ultimately show "py_str (snd kv) \<noteq> ''--overwrite''" using vals by blast
  qed
  have m': "\<forall>kv \<in> set item'. \<forall>ms. fst kv = ''members'' \<and> py_iter (snd kv) = Inr ms \<longrightarrow>
               (\<forall>m \<in> set ms. py_str m \<noteq> ''--overwrite'')"
  proof
    fix kv assume "kv \<in> set item'"
    with po(2) have "kv \<in> set item" by blast
    with mem show "\<forall>ms. fst kv = ''members'' \<and> py_iter (snd kv) = Inr ms \<longrightarrow>
               (\<forall>m \<in> set ms. py_str m \<noteq> ''--overwrite'')" by blast
  qed
  from parse_fn_no_overwrite [OF po(1) v' m' tmp a] po(3) show ?thesis by (simp add: spec)
qed

theorem overwrite_not_in_cmd_args_witness:
  "fst (parse_block create_temp_yaml ''credentials''
          [(''type'', PStr ''aws''), (''name'', PStr ''my_aws''), (''overwrite'', PBool True)] []) =
     Inr \<lparr>cmd_args = Args [''aws'', ''--name'', ''my_aws''], overwrite = PBool True\<rparr> \<and>
   ''--overwrite'' \<notin> set (spec_tokens (Args [''aws'', ''--name'', ''my_aws'']))"
proof -
  let ?item = "[(''type'', PStr ''aws''), (''name'', PStr ''my_aws''), (''overwrite'', PBool True)]"
  have ev: "fst (parse_block create_temp_yaml ''credentials'' ?item []) =
     Inr \<lparr>cmd_args = Args [''aws'', ''--name'', ''my_aws''], overwrite = PBool True\<rparr>"
    by (simp add: parse_block_def dict_pop_def parse_fn_def parse_credentials_block_def py_str_def)
  have vals: "\<forall>kv \<in> set ?item. fst kv \<noteq> ''overwrite'' \<longrightarrow> py_str (snd kv) \<noteq> ''--overwrite''"
    by (simp add: py_str_def)
  have mem: "\<forall>kv \<in> set ?item. \<forall>ms. fst kv = ''members'' \<and> py_iter (snd kv) = Inr ms \<longrightarrow>
               (\<forall>m \<in> set ms. py_str m \<noteq> ''--overwrite'')"
    by simp
  have tmp: "\<forall>v t. fst (create_temp_yaml v t) \<noteq> ''--overwrite''"
    by (simp add: create_temp_yaml_def temp_name_def)
  from overwrite_not_in_cmd_args [OF vals mem tmp ev] ev show ?thesis by simp
qed

text \<open>
  C9 as stated fails: values are passed through as they are, so a field whose value is
  the string \<^verbatim>\<open>--overwrite\<close> puts that token into the argument list.
\<close>

theorem overwrite_token_counterexample:
  "fst (parse_block create_temp_yaml ''organizations''
          [(''name'', PStr ''acme''), (''description'', PStr ''--overwrite''),
           (''overwrite'', PBool True)] []) =
     Inr \<lparr>cmd_args = Args [''--name'', ''acme'', ''--description'', ''--overwrite''],
          overwrite = PBool True\<rparr>"
  by (simp add: parse_block_def dict_pop_def parse_fn_def parse_generic_block_def py_str_def)

subsection \<open>C3: overwriting a workspace whose name is shared\<close>













subsection \<open>C4: a section that is absent from the document\<close>

text \<open>
  C4 says that parsing a block whose section is absent does not fail and returns the
  block name with one default, non-overwrite command specification. The source sets
  \<^verbatim>\<open>block = [{}]\<close> for that, but the statement before it is \<^verbatim>\<open>logging.warn(...)\<close>,
  and helper.py never imports \<^verbatim>\<open>logging\<close>. For every document, with the section of the
  block removed, \<open>parse_yaml_block\<close> raises \<^verbatim>\<open>NameError\<close> and returns nothing.
\<close>

theorem parse_yaml_block_absent_section:
  "parse_yaml_block cty (filter (\<lambda>kv. fst kv \<noteq> block_name) data) block_name s =
     (Inl (NameError ''logging''), s)"
proof -
  have "map_of (filter (\<lambda>kv. fst kv \<noteq> block_name) data) block_name = None"
    by (auto simp: map_of_eq_None_iff)
  then show ?thesis
    by (simp add: parse_yaml_block_def helper_globals_def)
qed

subsection \<open>C5: the datasets mapper and its required fields\<close>

lemma header_flags_simps [simp]:
  "header_flags [] = []"
  "header_flags ((k, v) # xs) = (if k = ''header'' \<and> v = PBool True then [''--header''] else []) @ header_flags xs"
  "header_flags (xs @ ys) = header_flags xs @ header_flags ys"
  by (simp_all add: header_flags_def)

lemma datasets_loop_no_file_path:
  "''file-path'' \<notin> fst ` set rest \<Longrightarrow> datasets_loop item rest acc = Inr (acc @ header_flags rest)"
  by (induction rest arbitrary: acc) (auto simp: bind_err_def)

lemma datasets_loop_error:
  "''file-path'' \<in> fst ` set rest \<Longrightarrow> dataset_fields item = Inl e \<Longrightarrow> datasets_loop item rest acc = Inl e"
proof (induction rest arbitrary: acc)
  case Nil
  then show ?case by simp
next
  case (Cons a rest)
  obtain k v where a: "a = (k, v)" by (cases a)
  show ?case
  proof (cases "k = ''file-path''")
    case True
    with Cons.prems a show ?thesis by (simp add: bind_err_def)
  next
    case False
    with Cons.prems a have "''file-path'' \<in> fst ` set rest" by auto
    with Cons.IH Cons.prems False a show ?thesis by (simp add: bind_err_def)
  qed
qed

lemma datasets_loop_split:
  "''file-path'' \<notin> fst ` set before \<Longrightarrow> ''file-path'' \<notin> fst ` set after \<Longrightarrow>
   dataset_fields item = Inr fs \<Longrightarrow>
   datasets_loop item (before @ (''file-path'', fp) # after) acc =
     Inr (acc @ header_flags before @ fs @ header_flags after)"
  by (induction before arbitrary: acc) (auto simp: bind_err_def datasets_loop_no_file_path)

lemma dataset_fields_missing:
  "''file-path'' \<in> fst ` set item \<Longrightarrow> \<not> {''name'', ''workspace'', ''description''} \<subseteq> fst ` set item \<Longrightarrow>
   \<exists>k \<in> {''name'', ''workspace'', ''description''} - fst ` set item. dataset_fields item = Inl (KeyError k)"
  by (auto simp: dataset_fields_def bind_err_def getitem_def
        dom_map_of_conv_image_fst [symmetric] domIff split: option.splits)

lemma dataset_fields_present:
  "map_of item ''file-path'' = Some fp \<Longrightarrow> map_of item ''name'' = Some nm \<Longrightarrow>
   map_of item ''workspace'' = Some ws \<Longrightarrow> map_of item ''description'' = Some ds \<Longrightarrow>
   dataset_fields item = Inr [py_str fp, ''--name'', py_str nm, ''--workspace'', py_str ws,
            ''--description'', py_str ds]"
  by (simp add: dataset_fields_def bind_err_def getitem_def)

lemma parse_datasets_block_all_present:
  assumes d: "distinct (map fst (before @ (''file-path'', fp) # after))"
    and nm: "map_of (before @ (''file-path'', fp) # after) ''name'' = Some nm"
    and ws: "map_of (before @ (''file-path'', fp) # after) ''workspace'' = Some ws"
    and ds: "map_of (before @ (''file-path'', fp) # after) ''description'' = Some ds"
  shows "parse_datasets_block (before @ (''file-path'', fp) # after) =
        Inr (header_flags before @
             [py_str fp, ''--name'', py_str nm, ''--workspace'', py_str ws,
              ''--description'', py_str ds] @
             header_flags after)"
proof -
  from d have nb: "''file-path'' \<notin> fst ` set before" and na: "''file-path'' \<notin> fst ` set after"
    by auto
  from nb have "map_of before ''file-path'' = None"
    by (simp add: map_of_eq_None_iff)
  then have fp: "map_of (before @ (''file-path'', fp) # after) ''file-path'' = Some fp"
    by (simp add: map_add_def)
  note fs = dataset_fields_present [OF fp nm ws ds]
  show ?thesis
    unfolding parse_datasets_block_def
    using datasets_loop_split [OF nb na fs, of fp "[]"] by simp
qed

text \<open>
  C5, as amended. The datasets mapper reads the four fields only when it meets the key
  \<^verbatim>\<open>file-path\<close>. Without that key nothing is read and nothing fails: the result holds
  \<^verbatim>\<open>--header\<close> alone, when \<^verbatim>\<open>header\<close> is the boolean true. With it, the mapper fails
  with a \<^verbatim>\<open>KeyError\<close> naming a missing one of \<^verbatim>\<open>name\<close>, \<^verbatim>\<open>workspace\<close>, \<^verbatim>\<open>description\<close>.
  With all four present it succeeds with the file path and the three flags in fixed
  order, \<^verbatim>\<open>--header\<close> before them when \<^verbatim>\<open>header\<close> comes before \<^verbatim>\<open>file-path\<close> in the item
  and after them otherwise.
\<close>

theorem parse_datasets_block_cases:
  "(''file-path'' \<notin> fst ` set item \<longrightarrow> parse_datasets_block item = Inr (header_flags item)) \<and>
   (''file-path'' \<in> fst ` set item \<and> \<not> {''name'', ''workspace'', ''description''} \<subseteq> fst ` set item \<longrightarrow>
      (\<exists>k \<in> {''name'', ''workspace'', ''description''} - fst ` set item.
         parse_datasets_block item = Inl (KeyError k))) \<and>
   (distinct (map fst item) \<and> item = before @ (''file-path'', fp) # after \<and>
    map_of item ''name'' = Some nm \<and> map_of item ''workspace'' = Some ws \<and>
    map_of item ''description'' = Some ds \<longrightarrow>
      parse_datasets_block item =
        Inr (header_flags before @
             [py_str fp, ''--name'', py_str nm, ''--workspace'', py_str ws,
              ''--description'', py_str ds] @
             header_flags after))"
proof (intro conjI impI)
  assume "''file-path'' \<notin> fst ` set item"
  then show "parse_datasets_block item = Inr (header_flags item)"
    by (simp add: parse_datasets_block_def datasets_loop_no_file_path)
next
  assume a: "''file-path'' \<in> fst ` set item \<and> \<not> {''name'', ''workspace'', ''description''} \<subseteq> fst ` set item"
  then obtain k where k: "k \<in> {''name'', ''workspace'', ''description''} - fst ` set item"
    and e: "dataset_fields item = Inl (KeyError k)"
    using dataset_fields_missing by blast
  from a e have "parse_datasets_block item = Inl (KeyError k)"
    by (simp add: parse_datasets_block_def datasets_loop_error)
  with k show "\<exists>k \<in> {''name'', ''workspace'', ''description''} - fst ` set item.
         parse_datasets_block item = Inl (KeyError k)" by blast
next
  assume "distinct (map fst item) \<and> item = before @ (''file-path'', fp) # after \<and>
    map_of item ''name'' = Some nm \<and> map_of item ''workspace'' = Some ws \<and>
    map_of item ''description'' = Some ds"
  then show "parse_datasets_block item =
        Inr (header_flags before @
             [py_str fp, ''--name'', py_str nm, ''--workspace'', py_str ws,
              ''--description'', py_str ds] @
             header_flags after)"
    using parse_datasets_block_all_present [of before fp after nm ws ds] by blast
qed

theorem parse_datasets_block_cases_witness:
  "parse_datasets_block
     [(''file-path'', PStr ''env.csv''), (''name'', PStr ''envs''), (''workspace'', PStr ''ws1''),
      (''description'', PStr ''desc''), (''header'', PBool True)] =
     Inr [''env.csv'', ''--name'', ''envs'', ''--workspace'', ''ws1'', ''--description'', ''desc'',
          ''--header''] \<and>
   parse_datasets_block [(''file-path'', PStr ''env.csv''), (''workspace'', PStr ''ws1'')] =
     Inl (KeyError ''name'') \<and>
   parse_datasets_block [(''name'', PStr ''envs''), (''header'', PBool True)] = Inr [''--header'']"
  using parse_datasets_block_cases [of
      "[(''file-path'', PStr ''env.csv''), (''name'', PStr ''envs''), (''workspace'', PStr ''ws1''),
        (''description'', PStr ''desc''), (''header'', PBool True)]"
      "[]" "PStr ''env.csv''"
      "[(''name'', PStr ''envs''), (''workspace'', PStr ''ws1''),
        (''description'', PStr ''desc''), (''header'', PBool True)]"
      "PStr ''envs''" "PStr ''ws1''" "PStr ''desc''"]
    parse_datasets_block_cases [of "[(''file-path'', PStr ''env.csv''), (''workspace'', PStr ''ws1'')]"]
    parse_datasets_block_cases [of "[(''name'', PStr ''envs''), (''header'', PBool True)]"]
  by (simp add: py_str_def parse_datasets_block_def dataset_fields_def bind_err_def getitem_def)

text \<open>
  C5 as stated fails: an item without \<^verbatim>\<open>file-path\<close> maps to the empty list instead
  of failing, and \<^verbatim>\<open>--header\<close> is not appended but put first when \<^verbatim>\<open>header\<close> is the
  item's first key.
\<close>

theorem parse_datasets_block_counterexample:
  "parse_datasets_block
     [(''name'', PStr ''envs''), (''workspace'', PStr ''ws1''), (''description'', PStr ''desc'')] = Inr [] \<and>
   parse_datasets_block
     [(''header'', PBool True), (''file-path'', PStr ''env.csv''), (''name'', PStr ''envs''),
      (''workspace'', PStr ''ws1''), (''description'', PStr ''desc'')] =
     Inr [''--header'', ''env.csv'', ''--name'', ''envs'', ''--workspace'', ''ws1'',
          ''--description'', ''desc'']"
  by (simp add: parse_datasets_block_def dataset_fields_def bind_err_def getitem_def py_str_def)

subsection \<open>C10: reverse mapping of an argument list\<close>

lemma startswith_flag [simp]: "startswith (CHR ''-'' # CHR ''-'' # k) ''--''"
  by (simp add: startswith_def)

lemma drop2_flag: "startswith arg ''--'' \<Longrightarrow> (drop 2 arg = k) = (arg = ''--'' @ k)"
proof -
  assume "startswith arg ''--''"
  then have "take 2 arg = ''--''" by (simp add: startswith_def numeral_2_eq_2)
  then have "arg = ''--'' @ drop 2 arg" by (metis append_take_drop_id)
  then show ?thesis by auto
qed

lemma flag_values_Cons:
  "flag_values k (a # args) =
     pending_values (if startswith a ''--'' then Some (drop 2 a) else None) k args"
proof (cases args)
  case Nil
  then show ?thesis by (simp add: pending_values_def)
next
  case (Cons b rest)
  show ?thesis
  proof (cases "startswith a ''--''")
    case True
    then show ?thesis using Cons by (simp add: pending_values_def drop2_flag)
  next
    case False
    then have "a \<noteq> ''--'' @ k" by auto
    then show ?thesis using Cons False by (simp add: pending_values_def)
  qed
qed

lemma values_loop_requested:
  "k \<in> set ks \<Longrightarrow> k \<noteq> [] \<Longrightarrow>
   values_loop ks args vals key k =
     (if pending_values key k args = [] then vals k
      else Some (Some (last (pending_values key k args))))"
proof (induction args arbitrary: vals key)
  case Nil
  show ?case by (simp add: pending_values_def)
next
  case (Cons a args)
  note IH = Cons.IH [OF Cons.prems]
  show ?case
  proof (cases "startswith a ''--''")
    case True
    have pv: "pending_values key k (a # args) = pending_values (Some (drop 2 a)) k args"
      using True by (simp add: pending_values_def flag_values_Cons)
    show ?thesis using True by (simp add: pv IH)
  next
    case False
    define P where "P = pending_values None k args"
    have pv: "pending_values key k (a # args) = (if key = Some k then [a] else []) @ P"
      using False by (simp add: pending_values_def flag_values_Cons P_def)
    show ?thesis
    proof (cases "key = Some k")
      case True
      with pv have pv': "pending_values (Some k) k (a # args) = a # P" by simp
      show ?thesis using True False Cons.prems by (simp add: pv' IH P_def [symmetric])
    next
      case neq: False
      with pv have pv': "pending_values key k (a # args) = P" by simp
      show ?thesis unfolding pv' using neq False Cons.prems
        by (cases key) (simp_all add: IH P_def [symmetric])
    qed
  qed
qed

lemma values_loop_other:
  "k \<notin> set ks \<or> k = [] \<Longrightarrow> values_loop ks args vals key k = vals k"
  by (induction args arbitrary: vals key) (auto split: option.splits)

lemma initial_values:
  "map_of (map (\<lambda>k. (k, None)) ks) k = (if k \<in> set ks then Some None else None)"
  by (induction ks) auto

text \<open>
  C10, as amended. Reverse mapping is a total function of the argument list and the
  requested keys. The keys of the result are exactly the requested keys. A requested
  key that is not the empty string maps to \<^verbatim>\<open>None\<close> when it never occurs as \<^verbatim>\<open>--key\<close>
  immediately followed by a token that is no flag, and to the token after its last such
  occurrence otherwise. A requested empty key always maps to \<^verbatim>\<open>None\<close>.
\<close>

theorem get_values_from_cmd_args_last_wins:
  "dom (get_values_from_cmd_args args ks) = set ks \<and>
   (\<forall>k \<in> set ks.
      get_values_from_cmd_args args ks k =
        Some (if k = [] \<or> flag_values k args = [] then None
              else Some (last (flag_values k args))))"
proof -
  have pv: "pending_values None k args = flag_values k args" for k
    by (cases args) (simp_all add: pending_values_def)
  have at: "get_values_from_cmd_args args ks k =
      (if k \<in> set ks then
         Some (if k = [] \<or> flag_values k args = [] then None
               else Some (last (flag_values k args)))
       else None)" for k
  proof (cases "k \<in> set ks \<and> k \<noteq> []")
    case True
    then show ?thesis
      by (simp add: get_values_from_cmd_args_def values_loop_requested pv initial_values)
  next
    case False
    then have "k \<notin> set ks \<or> k = []" by blast
    then show ?thesis
      by (auto simp: get_values_from_cmd_args_def values_loop_other initial_values)
  qed
  have "dom (get_values_from_cmd_args args ks) = set ks"
    by (auto simp: at dom_def split: if_splits)
  then show ?thesis by (simp add: at)
qed

theorem get_values_from_cmd_args_last_wins_witness:
  "dom (get_values_from_cmd_args
          [''--name'', ''dev'', ''--organization'', ''--name'', ''prod'', ''--x'', ''y'']
          [''name'', ''organization'']) = {''name'', ''organization''} \<and>
   get_values_from_cmd_args
     [''--name'', ''dev'', ''--organization'', ''--name'', ''prod'', ''--x'', ''y'']
     [''name'', ''organization''] ''name'' = Some (Some ''prod'') \<and>
   get_values_from_cmd_args
     [''--name'', ''dev'', ''--organization'', ''--name'', ''prod'', ''--x'', ''y'']
     [''name'', ''organization''] ''organization'' = Some None"
  using get_values_from_cmd_args_last_wins [of
      "[''--name'', ''dev'', ''--organization'', ''--name'', ''prod'', ''--x'', ''y'']"
      "[''name'', ''organization'']"]
  by (simp add: startswith_def insert_commute)

text \<open>
  C10 as stated fails for the empty key: the token \<^verbatim>\<open>--\<close> is \<^verbatim>\<open>--key\<close> for it and is
  twice followed by a token that is no flag, but \<^verbatim>\<open>if key\<close> is false for the empty
  string and the key maps to \<^verbatim>\<open>None\<close>.
\<close>

theorem get_values_from_cmd_args_empty_key_counterexample:
  "flag_values [] [''--'', ''x'', ''--'', ''y''] = [''x'', ''y''] \<and>
   get_values_from_cmd_args [''--'', ''x'', ''--'', ''y''] [[]] [] = Some None"
  by (simp add: get_values_from_cmd_args_def startswith_def)

subsection \<open>C8: reverse mapping recovers the keys of the deletion policy\<close>

lemma nonflag_neq: "\<not> startswith x ''--'' \<Longrightarrow> x \<noteq> CHR ''-'' # CHR ''-'' # k"
  by auto

lemma flag_values_append:
  "xs = [] \<or> last xs \<noteq> ''--'' @ k \<Longrightarrow>
   flag_values k (xs @ ys) = flag_values k xs @ flag_values k ys"
proof (induction k xs rule: flag_values.induct)
  case (1 k)
  show ?case by simp
next
  case (2 k a)
  then show ?case by (cases ys) simp_all
next
  case (3 k a b rest)
  then show ?case by simp
qed

lemma flag_values_after_value:
  "ends_value acc \<Longrightarrow> flag_values k (acc @ ys) = flag_values k acc @ flag_values k ys"
  by (rule flag_values_append) (auto simp: ends_value_def)

lemma ends_value_simps [simp]:
  "ends_value []"
  "\<not> startswith x ''--'' \<Longrightarrow> ends_value (acc @ [x])"
  "\<not> startswith x ''--'' \<Longrightarrow> ends_value (acc @ [y, x])"
  by (simp_all add: ends_value_def)

lemma ends_value_append:
  "ends_value xs \<Longrightarrow> ends_value ys \<Longrightarrow> ends_value (xs @ ys)"
  by (cases "ys = []") (auto simp: ends_value_def)

lemma flag_values_pair [simp]:
  "flag_values k [CHR ''-'' # CHR ''-'' # k', x] =
     (if k' = k \<and> \<not> startswith x ''--'' then [x] else [])"
  by simp

lemma flag_values_concat_map:
  assumes "\<forall>kv \<in> set item. ends_value (seg kv)" and "ends_value acc"
  shows "flag_values k (acc @ concat (map seg item)) =
           flag_values k acc @ concat (map (\<lambda>kv. flag_values k (seg kv)) item)"
  using assms
proof (induction item arbitrary: acc)
  case Nil
  then show ?case by simp
next
  case (Cons kv item)
  from Cons.prems have e: "ends_value (acc @ seg kv)" by (simp add: ends_value_append)
  from Cons.prems have r: "\<forall>kv \<in> set item. ends_value (seg kv)" by simp
  have "flag_values k ((acc @ seg kv) @ concat (map seg item)) =
      flag_values k (acc @ seg kv) @ concat (map (\<lambda>kv. flag_values k (seg kv)) item)"
    by (rule Cons.IH [OF r e])
  then show ?case using Cons.prems(2) by (simp add: flag_values_after_value)
qed

lemma kv_values_distinct:
  "distinct (map fst item) \<Longrightarrow> map_of item k = Some v \<Longrightarrow> kv_values k item = [py_str v]"
proof (induction item)
  case Nil
  then show ?case by simp
next
  case (Cons kv item)
  obtain key w where kv: "kv = (key, w)" by (cases kv)
  show ?case
  proof (cases "key = k")
    case True
    with Cons.prems kv have "w = v" and "k \<notin> fst ` set item" by auto
    then have "kv_values k item = []" by (auto simp: kv_values_def)
    with True kv \<open>w = v\<close> show ?thesis by (simp add: kv_values_def)
  next
    case False
    with Cons.prems kv have "kv_values k item = [py_str v]" by (intro Cons.IH) auto
    with False kv show ?thesis by (simp add: kv_values_def)
  qed
qed

lemma generic_loop_concat:
  "generic_loop item acc =
     acc @ concat (map (\<lambda>kv. [''--'' @ fst kv, py_str (snd kv)]) item)"
  by (induction item arbitrary: acc) auto

lemma credentials_loop_concat:
  "credentials_loop item acc =
     acc @ concat (map (\<lambda>kv. if fst kv = ''type'' then [py_str (snd kv)]
                              else [''--'' @ fst kv, py_str (snd kv)]) item)"
  by (induction item arbitrary: acc) auto

lemma compute_envs_loop_concat:
  "compute_envs_loop item acc =
     acc @ concat (map (\<lambda>kv. if fst kv = ''file-path'' then [py_str (snd kv)]
                              else [''--'' @ fst kv, py_str (snd kv)]) item)"
  by (induction item arbitrary: acc) auto

lemma teams_loop_concat:
  "teams_loop item rest acc macc = Inr (a, m) \<Longrightarrow>
   a = acc @ concat (map (\<lambda>kv. if fst kv \<in> set cmd_keys then [''--'' @ fst kv, py_str (snd kv)]
                                else []) rest)"
proof (induction rest arbitrary: acc macc)
  case Nil
  then show ?case by simp
next
  case (Cons kv rest)
  obtain key v where kv: "kv = (key, v)" by (cases kv)
  show ?case
  proof (cases "key \<in> set cmd_keys")
    case True
    with Cons.prems kv have "teams_loop item rest (acc @ [''--'' @ key, py_str v]) macc = Inr (a, m)"
      by simp
    from Cons.IH [OF this] True kv show ?thesis by simp
  next
    case False
    with Cons.prems kv obtain macc' where "teams_loop item rest acc macc' = Inr (a, m)"
      by (auto simp: bind_err_def split: if_splits sum.splits)
    from Cons.IH [OF this] False kv show ?thesis by simp
  qed
qed

lemma flag_values_generic:
  assumes "\<forall>kv \<in> set item. \<not> startswith (py_str (snd kv)) ''--''"
  shows "flag_values k (generic_loop item []) = kv_values k item"
proof -
  let ?seg = "\<lambda>kv. [''--'' @ fst kv, py_str (snd kv)]"
  from assms have e: "\<forall>kv \<in> set item. ends_value (?seg kv)" by (simp add: ends_value_def)
  have "concat (map (\<lambda>kv. flag_values k (?seg kv)) item) = kv_values k item"
    unfolding kv_values_def using assms by (intro arg_cong [where f = concat] map_cong) auto
  with flag_values_concat_map [OF e, of "[]" k] show ?thesis
    by (simp add: generic_loop_concat)
qed

lemma flag_values_credentials:
  assumes "\<forall>kv \<in> set item. \<not> startswith (py_str (snd kv)) ''--''" and "k \<noteq> ''type''"
  shows "flag_values k (credentials_loop item []) = kv_values k item"
proof -
  let ?seg = "\<lambda>kv. if fst kv = ''type'' then [py_str (snd kv)]
                      else [''--'' @ fst kv, py_str (snd kv)]"
  from assms have e: "\<forall>kv \<in> set item. ends_value (?seg kv)" by (simp add: ends_value_def)
  have "concat (map (\<lambda>kv. flag_values k (?seg kv)) item) = kv_values k item"
    unfolding kv_values_def using assms by (intro arg_cong [where f = concat] map_cong) auto
  with flag_values_concat_map [OF e, of "[]" k] show ?thesis
    by (simp add: credentials_loop_concat)
qed

lemma flag_values_compute_envs:
  assumes "\<forall>kv \<in> set item. \<not> startswith (py_str (snd kv)) ''--''" and "k \<noteq> ''file-path''"
  shows "flag_values k (compute_envs_loop item []) = kv_values k item"
proof -
  let ?seg = "\<lambda>kv. if fst kv = ''file-path'' then [py_str (snd kv)]
                      else [''--'' @ fst kv, py_str (snd kv)]"
  from assms have e: "\<forall>kv \<in> set item. ends_value (?seg kv)" by (simp add: ends_value_def)
  have "concat (map (\<lambda>kv. flag_values k (?seg kv)) item) = kv_values k item"
    unfolding kv_values_def using assms by (intro arg_cong [where f = concat] map_cong) auto
  with flag_values_concat_map [OF e, of "[]" k] show ?thesis
    by (simp add: compute_envs_loop_concat)
qed

lemma flag_values_teams:
  assumes "\<forall>kv \<in> set item. \<not> startswith (py_str (snd kv)) ''--''" and "k \<in> set cmd_keys"
    and "teams_loop item item [] [] = Inr (a, m)"
  shows "flag_values k a = kv_values k item"
proof -
  let ?seg = "\<lambda>kv. if fst kv \<in> set cmd_keys then [''--'' @ fst kv, py_str (snd kv)] else []"
  from assms have e: "\<forall>kv \<in> set item. ends_value (?seg kv)" by (simp add: ends_value_def)
  have "concat (map (\<lambda>kv. flag_values k (?seg kv)) item) = kv_values k item"
    unfolding kv_values_def using assms(1,2)
    by (intro arg_cong [where f = concat] map_cong) auto
  with flag_values_concat_map [OF e, of "[]" k] teams_loop_concat [OF assms(3)]
  show ?thesis by simp
qed

lemma kv_values_simps [simp]:
  "kv_values k [] = []"
  "kv_values k ((key, v) # item) = (if key = k then [py_str v] else []) @ kv_values k item"
  by (simp_all add: kv_values_def)

lemma flag_values_actions:
  assumes "\<forall>kv \<in> set item. \<not> startswith (py_str (snd kv)) ''--''"
    and "\<forall>v t. \<not> startswith (fst (cty v t)) ''--''"
    and "k \<noteq> ''type''" and "k \<noteq> ''params''" and "k \<noteq> ''params-file''"
    and "ends_value acc"
  shows "flag_values k (fst (actions_loop cty item acc s)) = flag_values k acc @ kv_values k item"
  using assms(1,6)
proof (induction item arbitrary: acc s)
  case Nil
  then show ?case by simp
next
  case (Cons kv item)
  obtain key v where kv: "kv = (key, v)" by (cases kv)
  obtain nm s' where c: "cty v s = (nm, s')" by (cases "cty v s")
  from assms(2) c have nm: "\<not> startswith nm ''--''" by (metis fst_conv)
  from Cons.prems(1) kv have v: "\<not> startswith (py_str v) ''--''"
    and r: "\<forall>kv \<in> set item. \<not> startswith (py_str (snd kv)) ''--''" by auto
  note fa = flag_values_after_value [OF Cons.prems(2)]
  consider "key = ''type''" | "key \<noteq> ''type''" "key = ''params''"
    | "key \<noteq> ''type''" "key \<noteq> ''params''" by blast
  then show ?case
  proof cases
    case 1
    from v have e: "ends_value (acc @ [py_str v])" by simp
    from Cons.IH [OF r e] 1 assms(3) show ?thesis by (simp add: kv fa)
  next
    case 2
    from nm have e: "ends_value (acc @ [''--params-file'', nm])" by simp
    from Cons.IH [OF r e] 2 assms(4,5) show ?thesis by (simp add: kv c fa)
  next
    case 3
    from v have e: "ends_value (acc @ [''--'' @ key, py_str v])" by simp
    from Cons.IH [OF r e] 3 v show ?thesis by (simp add: kv fa)
  qed
qed

lemma flag_values_values_only:
  "\<forall>x \<in> set xs. \<not> startswith x ''--'' \<Longrightarrow> flag_values k xs = [] \<and> ends_value xs"
proof (induction k xs rule: flag_values.induct)
  case (1 k)
  show ?case by simp
next
  case (2 k a)
  then show ?case by (simp add: ends_value_def)
next
  case (3 k a b rest)
  then show ?case by (auto simp: ends_value_def)
qed

lemma params_pairs_flag_values:
  assumes "\<forall>v t. \<not> startswith (fst (cty v t)) ''--''" and "k \<noteq> ''params-file''"
  shows "flag_values k (fst (params_pairs cty item s) @ ys) = flag_values k ys \<and>
         ends_value (fst (params_pairs cty item s))"
proof (induction item arbitrary: s)
  case Nil
  show ?case by simp
next
  case (Cons kv item)
  obtain key v where kv: "kv = (key, v)" by (cases kv)
  obtain nm s' where c: "cty v s = (nm, s')" by (cases "cty v s")
  from assms(1) c have nm: "\<not> startswith nm ''--''" by (metis fst_conv)
  show ?case
  proof (cases "key = ''params''")
    case False
    with Cons.IH [of s] show ?thesis by (simp add: kv)
  next
    case True
    obtain ps s'' where p: "params_pairs cty item s' = (ps, s'')"
      by (cases "params_pairs cty item s'")
    from Cons.IH [of s'] p have ih: "flag_values k (ps @ ys) = flag_values k ys"
      and e: "ends_value ps" by simp_all
    have "flag_values k ([''--params-file'', nm] @ (ps @ ys)) =
        flag_values k [''--params-file'', nm] @ flag_values k (ps @ ys)"
      by (rule flag_values_after_value) (simp add: ends_value_def nm)
    with ih assms(2) have "flag_values k ((''--params-file'' # nm # ps) @ ys) = flag_values k ys"
      by simp
    moreover have "ends_value (''--params-file'' # nm # ps)"
      using ends_value_append [of "[''--params-file'', nm]" ps] e nm
      by (simp add: ends_value_def)
    ultimately show ?thesis using True by (simp add: kv c p)
  qed
qed

lemma flag_values_pipelines:
  assumes vals: "\<forall>kv \<in> set item. \<not> startswith (py_str (snd kv)) ''--''"
    and tmp: "\<forall>v t. \<not> startswith (fst (cty v t)) ''--''"
    and k: "k \<noteq> ''url''" "k \<noteq> ''params''" "k \<noteq> ''file-path''" "k \<noteq> ''params-file''"
  shows "flag_values k (fst (pipelines_loop cty item [] [] [] s)) = kv_values k item"
proof -
  let ?seg = "\<lambda>kv. if fst kv = ''url'' \<or> fst kv = ''params'' \<or> fst kv = ''file-path'' then []
                      else [''--'' @ fst kv, py_str (snd kv)]"
  from vals have e: "\<forall>kv \<in> set item. ends_value (?seg kv)" by (simp add: ends_value_def)
  have "concat (map (\<lambda>kv. flag_values k (?seg kv)) item) = kv_values k item"
    unfolding kv_values_def using vals k by (intro arg_cong [where f = concat] map_cong) auto
  with flag_values_concat_map [OF e, of "[]" k]
  have fl: "flag_values k (pipelines_flags item) = kv_values k item"
    by (simp add: pipelines_flags_def)
  from vals have "\<forall>x \<in> set (pipelines_repo_args item). \<not> startswith x ''--''"
    by (auto simp: pipelines_repo_args_def split: if_splits)
  from flag_values_values_only [OF this, of k]
  have repo: "flag_values k (pipelines_repo_args item) = []" "ends_value (pipelines_repo_args item)"
    by simp_all
  from params_pairs_flag_values [OF tmp k(4), of item s "pipelines_flags item"]
  have pp: "flag_values k (fst (params_pairs cty item s) @ pipelines_flags item) =
      flag_values k (pipelines_flags item)" by simp
  show ?thesis
    by (simp add: pipelines_loop_layout flag_values_after_value [OF repo(2)] repo(1) pp fl)
qed

lemma header_flags_only:
  "k \<noteq> ''header'' \<Longrightarrow>
   flag_values k (header_flags xs @ ys) = flag_values k ys"
proof (induction xs)
  case Nil
  show ?case by simp
next
  case (Cons kv xs)
  obtain key v where kv: "kv = (key, v)" by (cases kv)
  show ?case
  proof (cases "key = ''header'' \<and> v = PBool True")
    case False
    with Cons show ?thesis by (auto simp: kv)
  next
    case True
    have "flag_values k (''--header'' # (header_flags xs @ ys)) = flag_values k (header_flags xs @ ys)"
      using Cons.prems by (cases "header_flags xs @ ys") simp_all
    with Cons True show ?thesis by (simp add: kv)
  qed
qed

lemma flag_values_dataset_fields:
  assumes "\<not> startswith a ''--''" "\<not> startswith b ''--''" "\<not> startswith c ''--''"
    "\<not> startswith d ''--''"
  shows "flag_values ''name'' [a, ''--name'', b, ''--workspace'', c, ''--description'', d] = [b]"
    and "flag_values ''workspace'' [a, ''--name'', b, ''--workspace'', c, ''--description'', d] = [c]"
  using assms by (simp_all add: nonflag_neq)

lemma flag_values_datasets:
  assumes d: "distinct (map fst item)"
    and fp: "''file-path'' \<in> fst ` set item"
    and ok: "datasets_loop item item [] = Inr out"
    and vals: "\<forall>kv \<in> set item. \<not> startswith (py_str (snd kv)) ''--''"
    and k: "k = ''name'' \<or> k = ''workspace''"
    and v: "map_of item k = Some v"
  shows "flag_values k out = [py_str v]"
proof -
  from fp obtain fpv where "(''file-path'', fpv) \<in> set item" by auto
  then obtain before after where split: "item = before @ (''file-path'', fpv) # after"
    by (meson split_list)
  with d have nb: "''file-path'' \<notin> fst ` set before" and na: "''file-path'' \<notin> fst ` set after"
    by auto
  obtain fs where fs: "dataset_fields item = Inr fs"
  proof (cases "dataset_fields item")
    case (Inl e)
    from datasets_loop_error [OF fp Inl, of "[]"] ok show ?thesis by simp
  next
    case (Inr fs)
    then show ?thesis by (rule that)
  qed
  then obtain f n w ds where
    g: "getitem item ''file-path'' = Inr f" "getitem item ''name'' = Inr n"
       "getitem item ''workspace'' = Inr w" "getitem item ''description'' = Inr ds"
    and fsv: "fs = [py_str f, ''--name'', py_str n, ''--workspace'', py_str w,
                    ''--description'', py_str ds]"
    by (auto simp: dataset_fields_def bind_err_def split: sum.splits)
  from g have m: "map_of item ''file-path'' = Some f" "map_of item ''name'' = Some n"
    "map_of item ''workspace'' = Some w" "map_of item ''description'' = Some ds"
    by (auto simp: getitem_def split: option.splits)
  then have "(''file-path'', f) \<in> set item" "(''name'', n) \<in> set item"
    "(''workspace'', w) \<in> set item" "(''description'', ds) \<in> set item"
    by (auto dest: map_of_SomeD)
  moreover have "\<And>key x. (key, x) \<in> set item \<Longrightarrow> \<not> startswith (py_str x) ''--''"
    using vals by (metis snd_conv)
  ultimately have nf: "\<not> startswith (py_str f) ''--''" "\<not> startswith (py_str n) ''--''"
    "\<not> startswith (py_str w) ''--''" "\<not> startswith (py_str ds) ''--''"
    by blast+
  have "datasets_loop item (before @ (''file-path'', fpv) # after) [] =
      Inr ([] @ header_flags before @ fs @ header_flags after)"
    by (rule datasets_loop_split [OF nb na fs])
  with ok split have out: "out = header_flags before @ fs @ header_flags after" by simp
  from k have kh: "k \<noteq> ''header''" by auto
  have e: "ends_value fs" using nf by (simp add: fsv ends_value_def)
  have "flag_values k out = flag_values k (fs @ header_flags after)"
    unfolding out by (rule header_flags_only [OF kh])
  also have "\<dots> = flag_values k fs @ flag_values k (header_flags after)"
    by (simp add: flag_values_after_value [OF e])
  also have "\<dots> = flag_values k fs"
    using header_flags_only [OF kh, of after "[]"] by simp
  finally have "flag_values k out = flag_values k fs" .
  moreover have "flag_values k fs = [py_str v]"
  proof (cases "k = ''name''")
    case True
    with v m(2) have "v = n" by simp
    with True show ?thesis unfolding fsv using flag_values_dataset_fields(1) [OF nf] by simp
  next
    case False
    with k have kw: "k = ''workspace''" by simp
    with v m(3) have "v = w" by simp
    with kw show ?thesis unfolding fsv using flag_values_dataset_fields(2) [OF nf] by simp
  qed
  ultimately show ?thesis by simp
qed

lemma block_operations_cases:
  assumes "block_operations block = Some operation"
  shows "(block \<in> set generic_deletion \<and> op_keys operation = [''name'', ''workspace'']) \<or>
         (block = ''organizations'' \<and> op_keys operation = [''name'']) \<or>
         (block = ''teams'' \<and> op_keys operation = [''name'', ''organization'']) \<or>
         (block = ''participants'' \<and> op_keys operation = [''name'', ''type'', ''workspace'']) \<or>
         (block = ''workspaces'' \<and> op_keys operation = [''name'', ''organization''])"
proof (cases "block \<in> set generic_deletion")
  case True
  with assms show ?thesis by (auto simp: block_operations_def)
next
  case False
  with assms have "map_of bespoke_operations block = Some operation"
    by (simp add: block_operations_def)
  then show ?thesis
    by (auto simp: bespoke_operations_def split: if_splits)
qed

lemma map_of_filter_other:
  "k \<noteq> k0 \<Longrightarrow> map_of (filter (\<lambda>kv. fst kv \<noteq> k0) item) k = map_of item k"
  by (induction item) auto

lemma pop_keeps:
  assumes "dict_pop ''overwrite'' (PBool False) item = (ow, item')" and "k \<noteq> ''overwrite''"
  shows "map_of item' k = map_of item k"
    and "distinct (map fst item) \<Longrightarrow> distinct (map fst item')"
    and "k \<in> fst ` set item \<Longrightarrow> k \<in> fst ` set item'"
proof -
  from assms(1) have alt: "item' = item \<or> item' = filter (\<lambda>kv. fst kv \<noteq> ''overwrite'') item"
    by (auto simp: dict_pop_def split: option.splits)
  from alt assms(2) show "map_of item' k = map_of item k"
    by (auto simp: map_of_filter_other)
  from alt show "distinct (map fst item) \<Longrightarrow> distinct (map fst item')"
    by (auto simp: distinct_map_filter)
  from alt assms(2) show "k \<in> fst ` set item \<Longrightarrow> k \<in> fst ` set item'"
    by auto
qed

lemma get_values_single:
  assumes "k \<in> set ks" and "k \<noteq> []" and "flag_values k args = [x]"
  shows "get_values_from_cmd_args args ks k = Some (Some x)"
proof -
  have "pending_values None k args = flag_values k args"
    by (cases args) (simp_all add: pending_values_def)
  with assms show ?thesis
    by (simp add: get_values_from_cmd_args_def values_loop_requested)
qed

lemma round_trip_generic_mapper:
  assumes d: "distinct (map fst item)"
    and v: "map_of item k = Some v"
    and vals: "\<forall>kv \<in> set item. \<not> startswith (py_str (snd kv)) ''--''"
    and ok: "fst (parse_fn cty block item s) = Inr a"
    and b: "block \<noteq> ''credentials''" "block \<noteq> ''compute-envs''" "block \<noteq> ''teams''"
      "block \<noteq> ''actions''" "block \<noteq> ''datasets''" "block \<noteq> ''pipelines''"
      "block \<noteq> ''launch''"
  shows "\<exists>src. values_source block a = Inr src \<and> flag_values k src = [py_str v]"
proof -
  from ok b have a: "a = Args (generic_loop item [])"
    by (simp add: parse_fn_def parse_generic_block_def)
  from flag_values_generic [OF vals, of k] kv_values_distinct [OF d v] b(3) show ?thesis
    by (simp add: a)
qed

lemma round_trip_generic_deletion:
  assumes g: "block \<in> set generic_deletion"
    and k: "k = ''name'' \<or> k = ''workspace''"
    and d: "distinct (map fst item)"
    and v: "map_of item k = Some v"
    and vals: "\<forall>kv \<in> set item. \<not> startswith (py_str (snd kv)) ''--''"
    and tmp: "\<forall>v t. \<not> startswith (fst (cty v t)) ''--''"
    and ds: "block = ''datasets'' \<longrightarrow> ''file-path'' \<in> fst ` set item"
    and ok: "fst (parse_fn cty block item s) = Inr a"
  shows "\<exists>src. values_source block a = Inr src \<and> flag_values k src = [py_str v]"
proof -
  note kv = kv_values_distinct [OF d v]
  from g have "block = ''credentials'' \<or> block = ''secrets'' \<or> block = ''compute-envs'' \<or>
      block = ''datasets'' \<or> block = ''actions'' \<or> block = ''pipelines''"
    by (simp add: generic_deletion_def)
  then show ?thesis
  proof (elim disjE)
    assume bl: "block = ''credentials''"
    with ok have a: "a = Args (credentials_loop item [])"
      by (simp add: parse_fn_def parse_credentials_block_def)
    from k have "k \<noteq> ''type''" by auto
    from flag_values_credentials [OF vals this] kv bl show ?thesis by (simp add: a)
  next
    assume bl: "block = ''secrets''"
    show ?thesis
      by (rule round_trip_generic_mapper [OF d v vals ok]) (simp_all add: bl)
  next
    assume bl: "block = ''compute-envs''"
    with ok have a: "a = Args (compute_envs_loop item [])"
      by (simp add: parse_fn_def parse_compute_envs_block_def)
    from k have "k \<noteq> ''file-path''" by auto
    from flag_values_compute_envs [OF vals this] kv bl show ?thesis by (simp add: a)
  next
    assume bl: "block = ''datasets''"
    with ok obtain x where a: "a = Args x" and l: "datasets_loop item item [] = Inr x"
      by (auto simp: parse_fn_def parse_datasets_block_def split: sum.splits)
    from bl ds have fp: "''file-path'' \<in> fst ` set item" by simp
    from flag_values_datasets [OF d fp l vals k v] bl show ?thesis by (simp add: a)
  next
    assume bl: "block = ''actions''"
    with ok have a: "a = Args (fst (actions_loop cty item [] s))"
      by (auto simp: parse_fn_def parse_actions_block_def split: prod.splits)
    from k have "k \<noteq> ''type''" "k \<noteq> ''params''" "k \<noteq> ''params-file''" by auto
    from flag_values_actions [OF vals tmp this, of "[]" s] kv bl show ?thesis
      by (simp add: a)
  next
    assume bl: "block = ''pipelines''"
    with ok have a: "a = Args (fst (pipelines_loop cty item [] [] [] s))"
      by (auto simp: parse_fn_def parse_pipelines_block_def split: prod.splits)
    from k have "k \<noteq> ''url''" "k \<noteq> ''params''" "k \<noteq> ''file-path''" "k \<noteq> ''params-file''"
      by auto
    from flag_values_pipelines [OF vals tmp this, of s] kv bl show ?thesis by (simp add: a)
  qed
qed

lemma round_trip_teams:
  assumes k: "k = ''name'' \<or> k = ''organization''"
    and d: "distinct (map fst item)"
    and v: "map_of item k = Some v"
    and vals: "\<forall>kv \<in> set item. \<not> startswith (py_str (snd kv)) ''--''"
    and ok: "fst (parse_fn cty ''teams'' item s) = Inr a"
  shows "\<exists>src. values_source ''teams'' a = Inr src \<and> flag_values k src = [py_str v]"
proof -
  from ok obtain x m where a: "a = TeamArgs x m" and l: "teams_loop item item [] [] = Inr (x, m)"
    by (auto simp: parse_fn_def parse_teams_block_def split: sum.splits prod.splits)
  from k have "k \<in> set cmd_keys" by (auto simp: cmd_keys_def)
  from flag_values_teams [OF vals this l] kv_values_distinct [OF d v] show ?thesis
    by (simp add: a)
qed

lemma round_trip_parse_fn:
  assumes op: "block_operations block = Some operation"
    and k: "k \<in> set (op_keys operation)"
    and d: "distinct (map fst item)"
    and v: "map_of item k = Some v"
    and vals: "\<forall>kv \<in> set item. \<not> startswith (py_str (snd kv)) ''--''"
    and tmp: "\<forall>v t. \<not> startswith (fst (cty v t)) ''--''"
    and ds: "block = ''datasets'' \<longrightarrow> ''file-path'' \<in> fst ` set item"
    and ok: "fst (parse_fn cty block item s) = Inr a"
  shows "\<exists>src. values_source block a = Inr src \<and> flag_values k src = [py_str v]"
  using block_operations_cases [OF op]
proof (elim disjE conjE)
  assume g: "block \<in> set generic_deletion" and ks: "op_keys operation = [''name'', ''workspace'']"
  from ks k have "k = ''name'' \<or> k = ''workspace''" by simp
  from round_trip_generic_deletion [OF g this d v vals tmp ds ok] show ?thesis .
next
  assume bl: "block = ''organizations''"
  show ?thesis by (rule round_trip_generic_mapper [OF d v vals ok]) (simp_all add: bl)
next
  assume bl: "block = ''teams''" and ks: "op_keys operation = [''name'', ''organization'']"
  from ks k have "k = ''name'' \<or> k = ''organization''" by simp
  from round_trip_teams [OF this d v vals] ok bl show ?thesis by simp
next
  assume bl: "block = ''participants''"
  show ?thesis by (rule round_trip_generic_mapper [OF d v vals ok]) (simp_all add: bl)
next
  assume bl: "block = ''workspaces''"
  show ?thesis by (rule round_trip_generic_mapper [OF d v vals ok]) (simp_all add: bl)
qed

text \<open>
  C8, as amended. Take a resource type that has a deletion policy, an item with distinct
  keys on which the type's mapper succeeds, and a key of the policy that the item has.
  Suppose no value of the item renders to a string that starts with \<^verbatim>\<open>--\<close>, no temporary
  file is named so, and, for datasets, the item has a \<^verbatim>\<open>file-path\<close> field. Then reverse
  mapping of the mapped arguments (of the primary list for teams), as the overwrite
  handler does it, returns for that key the rendering of the item's value.
\<close>

theorem reverse_mapping_recovers_policy_keys:
  assumes op: "block_operations block = Some operation"
    and k: "k \<in> set (op_keys operation)"
    and d: "distinct (map fst item)"
    and v: "map_of item k = Some v"
    and vals: "\<forall>kv \<in> set item. \<not> startswith (py_str (snd kv)) ''--''"
    and tmp: "\<forall>v t. \<not> startswith (fst (cty v t)) ''--''"
    and ds: "block = ''datasets'' \<longrightarrow> ''file-path'' \<in> fst ` set item"
    and ok: "fst (parse_block cty block item s) = Inr spec"
  shows "\<exists>src. values_source block (cmd_args spec) = Inr src \<and>
           get_values_from_cmd_args src (op_keys operation) k = Some (Some (py_str v))"
proof -
  from block_operations_cases [OF op]
  have "set (op_keys operation) \<subseteq> {''name'', ''workspace'', ''organization'', ''type''}"
    by (elim disjE conjE) simp_all
  with k have "k \<in> {''name'', ''workspace'', ''organization'', ''type''}" by (rule rev_subsetD)
  then have ko: "k \<noteq> ''overwrite''" and ke: "k \<noteq> []" by auto
  obtain ow item' where p: "dict_pop ''overwrite'' (PBool False) item = (ow, item')"
    by (cases "dict_pop ''overwrite'' (PBool False) item")
  from parse_block_Inr [OF ok p] obtain a where
    a: "fst (parse_fn cty block item' s) = Inr a"
    and spec: "spec = \<lparr>cmd_args = a, overwrite = ow\<rparr>"
    by blast
  note po = pop_overwrite [OF p]
  from pop_keeps(1) [OF p ko] v have v': "map_of item' k = Some v" by simp
  from pop_keeps(2) [OF p ko d] have d': "distinct (map fst item')" .
  from po(2) vals have vals': "\<forall>kv \<in> set item'. \<not> startswith (py_str (snd kv)) ''--''"
    by blast
  have ds': "block = ''datasets'' \<longrightarrow> ''file-path'' \<in> fst ` set item'"
    using ds pop_keeps(3) [OF p, of "''file-path''"] by simp
  from round_trip_parse_fn [OF op k d' v' vals' tmp ds' a]
  obtain src where src: "values_source block a = Inr src" "flag_values k src = [py_str v]"
    by blast
  from get_values_single [OF k ke src(2)] src(1) show ?thesis by (simp add: spec)
qed

theorem reverse_mapping_recovers_policy_keys_witness:
  "fst (parse_block create_temp_yaml ''credentials''
          [(''type'', PStr ''aws''), (''name'', PStr ''my_aws''), (''workspace'', PStr ''ws1''),
           (''overwrite'', PBool True)] []) =
     Inr \<lparr>cmd_args = Args [''aws'', ''--name'', ''my_aws'', ''--workspace'', ''ws1''],
          overwrite = PBool True\<rparr> \<and>
   get_values_from_cmd_args [''aws'', ''--name'', ''my_aws'', ''--workspace'', ''ws1'']
     [''name'', ''workspace''] ''name'' = Some (Some ''my_aws'')"
proof -
  let ?item = "[(''type'', PStr ''aws''), (''name'', PStr ''my_aws''), (''workspace'', PStr ''ws1''),
           (''overwrite'', PBool True)]"
  let ?op = "\<lparr>op_keys = [''name'', ''workspace''], op_method_args = ByNameWorkspace,
              op_name_key = ''name''\<rparr>"
  have op: "block_operations ''credentials'' = Some ?op"
    by (simp add: block_operations_def generic_deletion_def)
  have k: "''name'' \<in> set (op_keys ?op)" by simp
  have d: "distinct (map fst ?item)" by simp
  have v: "map_of ?item ''name'' = Some (PStr ''my_aws'')" by simp
  have vals: "\<forall>kv \<in> set ?item. \<not> startswith (py_str (snd kv)) ''--''"
    by (simp add: py_str_def startswith_def)
  have tmp: "\<forall>v t. \<not> startswith (fst (create_temp_yaml v t)) ''--''"
    by (simp add: create_temp_yaml_def temp_name_def startswith_def)
  have ds: "''credentials'' = ''datasets'' \<longrightarrow> ''file-path'' \<in> fst ` set ?item" by simp
  have ev: "fst (parse_block create_temp_yaml ''credentials'' ?item []) =
     Inr \<lparr>cmd_args = Args [''aws'', ''--name'', ''my_aws'', ''--workspace'', ''ws1''],
          overwrite = PBool True\<rparr>"
    by (simp add: parse_block_def dict_pop_def parse_fn_def parse_credentials_block_def py_str_def)
  from reverse_mapping_recovers_policy_keys [OF op k d v vals tmp ds ev] ev
  show ?thesis by (simp add: py_str_def)
qed

text \<open>
  C8 as stated fails twice. A value that starts with \<^verbatim>\<open>--\<close> is read back as a flag, so
  the organization named \<^verbatim>\<open>--acme\<close> is not recovered. And the datasets mapper emits
  nothing for an item without \<^verbatim>\<open>file-path\<close>, so its \<^verbatim>\<open>name\<close> and \<^verbatim>\<open>workspace\<close> are not
  recovered either.
\<close>

theorem reverse_mapping_counterexample:
  "block_operations ''organizations'' =
     Some \<lparr>op_keys = [''name''], op_method_args = ByName, op_name_key = ''orgName''\<rparr> \<and>
   fst (parse_block create_temp_yaml ''organizations'' [(''name'', PStr ''--acme'')] []) =
     Inr \<lparr>cmd_args = Args [''--name'', ''--acme''], overwrite = PBool False\<rparr> \<and>
   get_values_from_cmd_args [''--name'', ''--acme''] [''name''] ''name'' = Some None \<and>
   block_operations ''datasets'' =
     Some \<lparr>op_keys = [''name'', ''workspace''], op_method_args = ByNameWorkspace,
           op_name_key = ''name''\<rparr> \<and>
   fst (parse_block create_temp_yaml ''datasets''
          [(''name'', PStr ''envs''), (''workspace'', PStr ''ws1'')] []) =
     Inr \<lparr>cmd_args = Args [], overwrite = PBool False\<rparr> \<and>
   get_values_from_cmd_args [] [''name'', ''workspace''] ''name'' = Some None"
  by (simp add: block_operations_def generic_deletion_def bespoke_operations_def
        parse_block_def dict_pop_def parse_fn_def parse_generic_block_def
        parse_datasets_block_def bind_err_def py_str_def get_values_from_cmd_args_def
        startswith_def)

end
